theory Spec2Isabelle
  imports Complex_Main "HOL-Library.AList" "HOL-Library.Multiset"
begin

section \<open>Integrator chains (\<open>pytrajectory_new/auxiliary.py\<close>)\<close>

subsection \<open>Symbols, expressions and Python values\<close>

text \<open>
  A sympy symbol is identified by its name. An expression of the symbolic engine is a
  symbol, a number or a compound term. An entry of the vector field \<open>fi\<close> is either an
  expression (an instance of \<open>sp.Basic\<close>) or a plain Python number, which never compares
  equal to a symbol.
\<close>

datatype symbol = Symbol (name: string)

datatype expr =
    Sym symbol
  | Integer int
  | Float real
  | Add expr expr
  | Mul expr expr
  | Pow expr expr

datatype entry = Basic expr | Number real

datatype error = AssertionError | IndexError | ValueError | LinAlgError | UnboundLocalError

text \<open>
  Modelled from the spec: the substitution \<open>e.subs(1.0, 1)\<close> is a method of the symbolic
  engine, which is not part of the repository. The spec describes it as collapsing the
  numeric literal representations of the constant 1 to a canonical form. \<open>subs_one\<close>
  replaces the float literal 1.0 by the integer 1 throughout a term; the automatic
  re-evaluation that the engine performs on rebuilt compound terms is left out. The
  functions below take the substitution as their parameter \<open>subs\<close>, so the general
  theorems hold for every engine; \<open>subs_one\<close> is used at concrete inputs only.
\<close>

fun subs_one :: "expr \<Rightarrow> expr" where
  "subs_one (Float r) = (if r = 1 then Integer 1 else Float r)"
| "subs_one (Add a b) = Add (subs_one a) (subs_one b)"
| "subs_one (Mul a b) = Mul (subs_one a) (subs_one b)"
| "subs_one (Pow a b) = Pow (subs_one a) (subs_one b)"
| "subs_one e = e"

subsection \<open>\<open>IntegChain\<close>\<close>

record IntegChain =
  elements :: "symbol list"
  upper :: symbol
  lower :: symbol

text \<open>\<open>__init__\<close>: \<open>self._elements[0]\<close> raises IndexError on an empty tuple.\<close>

definition IntegChain_init :: "symbol list \<Rightarrow> error + IntegChain" where
  "IntegChain_init lst =
     (case lst of
        [] \<Rightarrow> Inl IndexError
      | e # es \<Rightarrow> Inr \<lparr>elements = lst, upper = e, lower = last lst\<rparr>)"

definition IntegChain_len :: "IntegChain \<Rightarrow> nat" where
  "IntegChain_len ic = length (elements ic)"

definition IntegChain_contains :: "IntegChain \<Rightarrow> symbol \<Rightarrow> bool" where
  "IntegChain_contains ic item = (item \<in> set (elements ic))"

subsection \<open>Dictionaries and list helpers\<close>

text \<open>
  A Python dictionary is an association list with distinct keys: \<open>d[k] = v\<close> is
  \<open>AList.update k v d\<close> (overwrite in place, or a new item), \<open>d.has_key(k)\<close> and \<open>d[k]\<close>
  are \<open>map_of d k\<close>. The code runs under Python 2, where the order in which \<open>values()\<close>
  and \<open>items()\<close> enumerate a dictionary is fixed by the hash table and not by the
  insertion order; the functions below take this order as the parameter \<open>ordr\<close>, a
  rearrangement of the items.
\<close>

type_synonym dict = "(symbol \<times> symbol) list"

definition has_key :: "dict \<Rightarrow> symbol \<Rightarrow> bool" where
  "has_key d k = (map_of d k \<noteq> None)"

text \<open>\<open>name.startswith('x')\<close>\<close>

definition startswith_x :: "string \<Rightarrow> bool" where
  "startswith_x s = (case s of [] \<Rightarrow> False | c # _ \<Rightarrow> c = CHR ''x'')"

text \<open>\<open>lst.index(y)\<close>: the first position of \<open>y\<close>; the source raises ValueError if there is none.\<close>

primrec list_index :: "'a list \<Rightarrow> 'a \<Rightarrow> nat option" where
  "list_index [] y = None"
| "list_index (x # xs) y = (if x = y then Some 0 else map_option Suc (list_index xs y))"

text \<open>Running a fallible constructor over a list stops at the first error.\<close>

primrec map_err :: "('a \<Rightarrow> error + 'b) \<Rightarrow> 'a list \<Rightarrow> error + 'b list" where
  "map_err f [] = Inr []"
| "map_err f (x # xs) =
     (case f x of
        Inl e \<Rightarrow> Inl e
      | Inr y \<Rightarrow> (case map_err f xs of Inl e \<Rightarrow> Inl e | Inr ys \<Rightarrow> Inr (y # ys)))"

subsection \<open>\<open>find_integrator_chains\<close>\<close>

text \<open>
  The three argument sequences as the caller sees them. Only \<open>fi\<close> is ever assigned to
  (\<open>fi[i] = fi[i].subs(1.0, 1)\<close>); the model takes the three sequences to be separate
  objects.
\<close>

record store =
  st_fi :: "entry list"
  st_x_sym :: "symbol list"
  st_u_sym :: "symbol list"

text \<open>The inner loops \<open>for xx in syms: if fi[i] == xx: chaindict[xx] = x_sym[i]\<close>.\<close>

definition record_matches :: "entry \<Rightarrow> symbol \<Rightarrow> symbol list \<Rightarrow> dict \<Rightarrow> dict" where
  "record_matches e xi syms chaindict =
     fold (\<lambda>xx cd. if e = Basic (Sym xx) then AList.update xx xi cd else cd) syms chaindict"

text \<open>
  The body of the first loop, for one index \<open>i\<close>. The loop runs after the assertion
  \<open>n == len(fi)\<close>, so \<open>i\<close> is within \<open>x_sym\<close> as well.
\<close>

definition scan_step :: "(expr \<Rightarrow> expr) \<Rightarrow> nat \<Rightarrow> store \<times> dict \<Rightarrow> store \<times> dict" where
  "scan_step subs i = (\<lambda>(st, chaindict).
     let st = (case st_fi st ! i of
                 Basic b \<Rightarrow> st\<lparr>st_fi := (st_fi st)[i := Basic (subs b)]\<rparr>
               | Number r \<Rightarrow> st);
         chaindict = record_matches (st_fi st ! i) (st_x_sym st ! i) (st_x_sym st) chaindict;
         chaindict = record_matches (st_fi st ! i) (st_x_sym st ! i) (st_u_sym st) chaindict
     in (st, chaindict))"

text \<open>
  The loop \<open>while dictchain.has_key(vv): vv = dictchain[vv]; tmpchain.append(vv)\<close>.
  Nothing in the loop itself bounds it, so not returning is the value \<open>None\<close>.
\<close>

partial_function (option) walk ::
  "(symbol \<rightharpoonup> symbol) \<Rightarrow> symbol \<Rightarrow> symbol list \<Rightarrow> symbol list option" where
  "walk dictchain vv tmpchain =
     (case dictchain vv of
        None \<Rightarrow> Some tmpchain
      | Some w \<Rightarrow> walk dictchain w (tmpchain @ [w]))"

text \<open>The loop over the chains that collects the indices of the lower ends.\<close>

fun collect_eqind :: "symbol list \<Rightarrow> IntegChain list \<Rightarrow> nat list \<Rightarrow> error + nat list" where
  "collect_eqind x_sym [] eqind = Inr eqind"
| "collect_eqind x_sym (ic # ics) eqind =
     (if startswith_x (name (lower ic)) then
        (case list_index x_sym (lower ic) of
           None \<Rightarrow> Inl ValueError
         | Some idx \<Rightarrow> collect_eqind x_sym ics (eqind @ [idx]))
      else collect_eqind x_sym ics eqind)"

definition select_eqind :: "symbol list \<Rightarrow> IntegChain list \<Rightarrow> error + nat list" where
  "select_eqind x_sym ics =
     (let n = length x_sym in
      if ics \<noteq> [] then
        (case collect_eqind x_sym ics [] of
           Inl e \<Rightarrow> Inl e
         | Inr eqind \<Rightarrow>
             (let eqind = sort eqind in
              if eqind = [] then Inr [0..<n] else Inr eqind))
      else Inr [0..<n])"

definition build_chaindict :: "(expr \<Rightarrow> expr) \<Rightarrow> store \<Rightarrow> store \<times> dict" where
  "build_chaindict subs st = fold (scan_step subs) [0..<length (st_fi st)] (st, [])"

text \<open>\<open>for vv in chaindict.values(): if (not chaindict.has_key(vv)): uppers.append(vv)\<close>\<close>

definition find_uppers :: "(dict \<Rightarrow> dict) \<Rightarrow> dict \<Rightarrow> symbol list" where
  "find_uppers ordr chaindict = filter (\<lambda>vv. \<not> has_key chaindict vv) (map snd (ordr chaindict))"

text \<open>
  \<open>dictchain = {v:k for k,v in chaindict.items()}\<close>: a later item overwrites an earlier
  one with the same value. \<open>dictchain\<close> is only looked up, so it is a map.
\<close>

definition flip_dict :: "(dict \<Rightarrow> dict) \<Rightarrow> dict \<Rightarrow> (symbol \<rightharpoonup> symbol)" where
  "flip_dict ordr chaindict = fold (\<lambda>(k, v) d. d(v \<mapsto> k)) (ordr chaindict) Map.empty"

text \<open>
  The result is \<open>None\<close> if a chain walk does not return; otherwise it is the store after
  the call, with the exception raised or the pair \<open>(chains, eqind)\<close> returned.
  The debug line written for each chain found is not part of the model.
\<close>

definition find_integrator_chains ::
  "(expr \<Rightarrow> expr) \<Rightarrow> (dict \<Rightarrow> dict) \<Rightarrow> store \<Rightarrow> (store \<times> (error + IntegChain list \<times> nat list)) option" where
  "find_integrator_chains subs ordr st =
     (let n = length (st_x_sym st) in
      if n \<noteq> length (st_fi st) then Some (st, Inl AssertionError)
      else
        let (st, chaindict) = build_chaindict subs st;
            uppers = find_uppers ordr chaindict;
            dictchain = flip_dict ordr chaindict
        in case those (map (\<lambda>var. walk dictchain var [var]) uppers) of
             None \<Rightarrow> None
           | Some tmpchains \<Rightarrow>
               (case map_err IntegChain_init tmpchains of
                  Inl e \<Rightarrow> Some (st, Inl e)
                | Inr ics \<Rightarrow>
                    (case select_eqind (st_x_sym st) ics of
                       Inl e \<Rightarrow> Some (st, Inl e)
                     | Inr eqind \<Rightarrow> Some (st, Inr (ics, eqind)))))"

subsection \<open>Normal forms, chain levels and concrete inputs\<close>

text \<open>
  What the first loop does to one entry of \<open>fi\<close>: an expression is replaced by its
  substituted form, any other value is left alone.
\<close>

definition normalize_entry :: "(expr \<Rightarrow> expr) \<Rightarrow> entry \<Rightarrow> entry" where
  "normalize_entry subs e = (case e of Basic b \<Rightarrow> Basic (subs b) | Number r \<Rightarrow> Number r)"

text \<open>
  The loop invariant of the first loop after \<open>j\<close> indices: the first \<open>j\<close> entries of \<open>fi\<close>
  are normalised and nothing else in the store has changed; \<open>chaindict\<close> has distinct keys;
  every item of it comes from an index whose normalised entry is the key, a symbol of
  \<open>x_sym\<close> or \<open>u_sym\<close>, and holds the state symbol of that index; and every such match is a
  key.
\<close>

definition scan_inv :: "(expr \<Rightarrow> expr) \<Rightarrow> store \<Rightarrow> nat \<Rightarrow> store \<times> dict \<Rightarrow> bool" where
  "scan_inv subs st j p = (case p of (st', cd) \<Rightarrow>
     st' = st\<lparr>st_fi := map (normalize_entry subs) (take j (st_fi st)) @ drop j (st_fi st)\<rparr>
   \<and> distinct (map fst cd)
   \<and> (\<forall>(k, v) \<in> set cd. \<exists>i<j. normalize_entry subs (st_fi st ! i) = Basic (Sym k)
          \<and> v = st_x_sym st ! i \<and> k \<in> set (st_x_sym st) \<union> set (st_u_sym st))
   \<and> (\<forall>i<j. \<forall>k. normalize_entry subs (st_fi st ! i) = Basic (Sym k)
          \<longrightarrow> k \<in> set (st_x_sym st) \<union> set (st_u_sym st) \<longrightarrow> k \<in> fst ` set cd))"

text \<open>
  \<open>steps f n w\<close> follows the map \<open>f\<close> from \<open>w\<close> for \<open>n\<close> steps. A symbol is rooted at \<open>r\<close>
  with level \<open>n\<close> if \<open>n\<close> steps of \<open>chaindict\<close> lead from it to \<open>r\<close>, which is not a key.
\<close>

fun steps :: "('a \<rightharpoonup> 'a) \<Rightarrow> nat \<Rightarrow> 'a \<Rightarrow> 'a option" where
  "steps f 0 w = Some w"
| "steps f (Suc n) w = (case f w of None \<Rightarrow> None | Some w' \<Rightarrow> steps f n w')"

definition rooted :: "('a \<rightharpoonup> 'a) \<Rightarrow> nat \<Rightarrow> 'a \<Rightarrow> 'a \<Rightarrow> bool" where
  "rooted f n w r = (steps f n w = Some r \<and> f r = None)"

text \<open>
  The chain object that \<open>IntegChain_init\<close> builds from a non-empty list.
\<close>

definition mk_chain :: "symbol list \<Rightarrow> IntegChain" where
  "mk_chain lst = \<lparr>elements = lst, upper = hd lst, lower = last lst\<rparr>"

text \<open>
  Concrete inputs: the triple integrator \<open>x1' = x2, x2' = x3, x3' = u1\<close>; a call whose
  \<open>x_sym\<close> repeats a symbol; and a system with two chains and a float literal in \<open>fi\<close>.
\<close>

definition x1 :: symbol where "x1 = Symbol ''x1''"
definition x2 :: symbol where "x2 = Symbol ''x2''"
definition x3 :: symbol where "x3 = Symbol ''x3''"
definition u1 :: symbol where "u1 = Symbol ''u1''"
definition u2 :: symbol where "u2 = Symbol ''u2''"
definition x4 :: symbol where "x4 = Symbol ''x4''"

definition st_chain :: store where
  "st_chain = \<lparr>st_fi = [Basic (Sym x2), Basic (Sym x3), Basic (Sym u1)],
               st_x_sym = [x1, x2, x3], st_u_sym = [u1]\<rparr>"

definition chain_x1 :: IntegChain where
  "chain_x1 = \<lparr>elements = [x1, x2, x3, u1], upper = x1, lower = u1\<rparr>"

definition st_dup :: store where
  "st_dup = \<lparr>st_fi = [Basic (Sym u1), Basic (Sym u2)], st_x_sym = [x1, x1], st_u_sym = [u1, u2]\<rparr>"

definition chain_dup :: IntegChain where
  "chain_dup = \<lparr>elements = [x1, u2], upper = x1, lower = u2\<rparr>"

definition st_two :: store where
  "st_two = \<lparr>st_fi = [Basic (Sym x2), Basic (Sym u1), Basic (Sym x4), Basic (Mul (Float 1) (Sym u1))],
             st_x_sym = [x1, x2, x3, x4], st_u_sym = [u1]\<rparr>"

definition st_two_after :: store where
  "st_two_after = \<lparr>st_fi = [Basic (Sym x2), Basic (Sym u1), Basic (Sym x4), Basic (Mul (Integer 1) (Sym u1))],
             st_x_sym = [x1, x2, x3, x4], st_u_sym = [u1]\<rparr>"

definition chain_a :: IntegChain where
  "chain_a = \<lparr>elements = [x1, x2, u1], upper = x1, lower = u1\<rparr>"

definition chain_b :: IntegChain where
  "chain_b = \<lparr>elements = [x3, x4], upper = x3, lower = x4\<rparr>"

section \<open>The Levenberg-Marquardt solver (\<open>pytrajectory/solver.py\<close>)\<close>

subsection \<open>Numbers, numpy and the log\<close>

text \<open>
  Floating-point numbers are taken to be reals: rounding and overflow are not modelled.
  The one division of the solver is between numpy scalars, where a zero divisor does not
  raise but gives an infinity or NaN; the trust ratio therefore ranges over \<open>fl\<close>, and
  its comparisons with the borders are those of IEEE 754 (every comparison with NaN is
  false).
\<close>

datatype fl = Fin real | PInf | NInf | NaN

definition fdiv :: "real \<Rightarrow> real \<Rightarrow> fl" where
  "fdiv a b =
     (if b \<noteq> 0 then Fin (a / b)
      else if a = 0 then NaN
      else if 0 < a then PInf else NInf)"

fun fl_less :: "fl \<Rightarrow> real \<Rightarrow> bool" where
  "fl_less (Fin r) b = (r < b)"
| "fl_less NInf b = True"
| "fl_less PInf b = False"
| "fl_less NaN b = False"

fun fl_le :: "fl \<Rightarrow> real \<Rightarrow> bool" where
  "fl_le (Fin r) b = (r \<le> b)"
| "fl_le NInf b = True"
| "fl_le PInf b = False"
| "fl_le NaN b = False"

fun fl_ge :: "fl \<Rightarrow> real \<Rightarrow> bool" where
  "fl_ge (Fin r) b = (r \<ge> b)"
| "fl_ge NInf b = False"
| "fl_ge PInf b = True"
| "fl_ge NaN b = False"

text \<open>
  The operations of numpy and scipy that the solver calls, on vectors \<open>'v\<close> and
  matrices \<open>'m\<close>. They are not part of the repository and are parameters of the model.
  \<open>np_solve\<close> is \<open>numpy.linalg.solve\<close>, which raises LinAlgError on a singular matrix.
\<close>

record ('v, 'm) linalg =
  np_len :: "'v \<Rightarrow> nat"
  np_eye :: "nat \<Rightarrow> 'm"
  csr_matrix :: "'m \<Rightarrow> 'm"
  np_T :: "'m \<Rightarrow> 'm"
  np_dot_mm :: "'m \<Rightarrow> 'm \<Rightarrow> 'm"
  np_dot_mv :: "'m \<Rightarrow> 'v \<Rightarrow> 'v"
  np_add_m :: "'m \<Rightarrow> 'm \<Rightarrow> 'm"
  np_scale_m :: "real \<Rightarrow> 'm \<Rightarrow> 'm"
  np_solve :: "'m \<Rightarrow> 'v \<Rightarrow> error + 'v"
  np_neg :: "'v \<Rightarrow> 'v"
  np_add_v :: "'v \<Rightarrow> 'v \<Rightarrow> 'v"
  np_norm :: "'v \<Rightarrow> real"

text \<open>The scalar instance: vectors and matrices of dimension one.\<close>

definition la1 :: "(real, real) linalg" where
  "la1 = \<lparr>np_len = (\<lambda>v. 1), np_eye = (\<lambda>n. 1), csr_matrix = (\<lambda>m. m), np_T = (\<lambda>m. m),
          np_dot_mm = (\<lambda>a b. a * b), np_dot_mv = (\<lambda>a v. a * v), np_add_m = (\<lambda>a b. a + b),
          np_scale_m = (\<lambda>c a. c * a),
          np_solve = (\<lambda>a b. if a = 0 then Inl LinAlgError else Inr (b / a)),
          np_neg = (\<lambda>v. - v), np_add_v = (\<lambda>v w. v + w), np_norm = (\<lambda>v. \<bar>v\<bar>)\<rparr>"

text \<open>
  What a call lets the outside observe, in order: the lines written by \<open>log.info\<close> and
  \<open>log.warn\<close> (label and text), and the evaluations of \<open>F\<close> and \<open>DF\<close> with their
  arguments.
\<close>

datatype msg = Text string | NIt int real

datatype 'v event = Log string msg | CallF 'v | CallDF 'v

definition log_info :: "msg \<Rightarrow> 'v event" where
  "log_info text = Log ''INFO:'' text"

definition log_warn :: "msg \<Rightarrow> 'v event" where
  "log_warn text = Log ''WARN:'' text"

subsection \<open>\<open>Solver\<close>\<close>

record ('v, 'm) Solver =
  F :: "'v \<Rightarrow> 'v"
  DF :: "'v \<Rightarrow> 'm"
  x0 :: 'v
  tol :: real
  reltol :: real
  maxx :: int
  algo :: string
  sol :: "'v option"

definition Solver_init ::
  "('v \<Rightarrow> 'v) \<Rightarrow> ('v \<Rightarrow> 'm) \<Rightarrow> 'v \<Rightarrow> real \<Rightarrow> int \<Rightarrow> string \<Rightarrow> ('v, 'm) Solver" where
  "Solver_init f df x t m a =
     \<lparr>F = f, DF = df, x0 = x, tol = t, reltol = t, maxx = m, algo = a, sol = None\<rparr>"

text \<open>
  The local variables of \<open>leven\<close> that live across loop iterations. \<open>s\<close> and \<open>normFx\<close>
  are first assigned inside the inner loop and read after it, so they are unbound
  (\<open>None\<close>) until then. \<open>v_out\<close> collects the events of the call.
\<close>

record 'v leven_vars =
  v_i :: int
  v_x :: 'v
  v_res :: real
  v_res_alt :: real
  v_mu :: real
  v_roh :: fl
  v_s :: "'v option"
  v_normFx :: "real option"
  v_out :: "'v event list"

definition b0 :: real where "b0 = 0.2"
definition b1 :: real where "b1 = 0.8"

text \<open>
  One pass of the inner loop \<open>while (roh < b0)\<close>. The step \<open>s\<close> is a vector, on which
  \<open>np.array(s).flatten()\<close> is the identity. \<open>F\<close> and \<open>DF\<close> are pure: evaluating them has no
  effect but the event recorded.
\<close>

definition damping_pass ::
  "('v, 'm) linalg \<Rightarrow> ('v, 'm) Solver \<Rightarrow> 'm \<Rightarrow> 'v \<Rightarrow> 'm \<Rightarrow> 'v leven_vars \<Rightarrow> error + 'v leven_vars" where
  "damping_pass la self eye Fx DFx vs =
     (let A = np_add_m la (np_dot_mm la (np_T la DFx) DFx) (np_scale_m la ((v_mu vs)\<^sup>2) eye);
          b = np_dot_mv la (np_T la DFx) Fx
      in case np_solve la A b of
           Inl e \<Rightarrow> Inl e
         | Inr y \<Rightarrow>
             (let s = np_neg la y;
                  xs = np_add_v la (v_x vs) s;
                  Fxs = F self xs;
                  normFx = np_norm la Fx;
                  normFxs = np_norm la Fxs;
                  roh = fdiv (normFx\<^sup>2 - normFxs\<^sup>2)
                             (normFx\<^sup>2 - (np_norm la (np_add_v la Fx (np_dot_mv la DFx s)))\<^sup>2);
                  mu = (if fl_le roh b0 then 2.0 * v_mu vs else v_mu vs);
                  mu = (if fl_ge roh b1 then 0.5 * mu else mu)
              in Inr (vs\<lparr>v_mu := mu, v_roh := roh, v_s := Some s, v_normFx := Some normFx,
                          v_out := v_out vs @ [CallF xs]\<rparr>)))"

partial_function (option) damping ::
  "('v, 'm) linalg \<Rightarrow> ('v, 'm) Solver \<Rightarrow> 'm \<Rightarrow> 'v \<Rightarrow> 'm \<Rightarrow> 'v leven_vars \<Rightarrow> (error + 'v leven_vars) option" where
  "damping la self eye Fx DFx vs =
     (if fl_less (v_roh vs) b0 then
        (case damping_pass la self eye Fx DFx vs of
           Inl e \<Rightarrow> Some (Inl e)
         | Inr vs' \<Rightarrow> damping la self eye Fx DFx vs')
      else Some (Inr vs))"

text \<open>The condition and the body of the outer loop.\<close>

definition outer_cond :: "('v, 'm) Solver \<Rightarrow> 'v leven_vars \<Rightarrow> bool" where
  "outer_cond self vs =
     (v_res vs > tol self \<and> maxx self > v_i vs \<and> \<bar>v_res vs - v_res_alt vs\<bar> > reltol self)"

definition outer_body ::
  "('v, 'm) linalg \<Rightarrow> ('v, 'm) Solver \<Rightarrow> 'm \<Rightarrow> 'v leven_vars \<Rightarrow> (error + 'v leven_vars) option" where
  "outer_body la self eye vs =
     (let vs = vs\<lparr>v_i := v_i vs + 1\<rparr>;
          Fx = F self (v_x vs);
          DFx = DF self (v_x vs);
          vs = vs\<lparr>v_out := v_out vs @ [CallF (v_x vs), CallDF (v_x vs)]\<rparr>;
          DFx = csr_matrix la DFx
      in case damping la self eye Fx DFx vs of
           None \<Rightarrow> None
         | Some (Inl e) \<Rightarrow> Some (Inl e)
         | Some (Inr vs) \<Rightarrow>
             (case (v_s vs, v_normFx vs) of
                (Some s, Some normFx) \<Rightarrow>
                  Some (Inr (vs\<lparr>v_roh := Fin 0.0,
                                 v_x := np_add_v la (v_x vs) s,
                                 v_res_alt := v_res vs,
                                 v_res := normFx,
                                 v_out := v_out vs @ [log_info (NIt (v_i vs) normFx)]\<rparr>))
              | _ \<Rightarrow> Some (Inl UnboundLocalError)))"

partial_function (option) outer ::
  "('v, 'm) linalg \<Rightarrow> ('v, 'm) Solver \<Rightarrow> 'm \<Rightarrow> 'v leven_vars \<Rightarrow> (error + 'v leven_vars) option" where
  "outer la self eye vs =
     (if outer_cond self vs then
        (case outer_body la self eye vs of
           None \<Rightarrow> None
         | Some (Inl e) \<Rightarrow> Some (Inl e)
         | Some (Inr vs') \<Rightarrow> outer la self eye vs')
      else Some (Inr vs))"

definition leven_init :: "('v, 'm) Solver \<Rightarrow> 'v leven_vars" where
  "leven_init self =
     \<lparr>v_i = 0, v_x = x0 self, v_res = 1, v_res_alt = 10 ^ 10, v_mu = 0.1, v_roh = Fin 0.0,
      v_s = None, v_normFx = None, v_out = []\<rparr>"

text \<open>
  \<open>leven\<close> returns the solver with \<open>self.sol\<close> assigned and the events of the call; the
  result is \<open>None\<close> if a loop does not return and \<open>Inl\<close> if an exception leaves it.
\<close>

definition leven ::
  "('v, 'm) linalg \<Rightarrow> ('v, 'm) Solver \<Rightarrow> (error + ('v, 'm) Solver \<times> 'v event list) option" where
  "leven la self =
     (let vs = leven_init self;
          eye = np_eye la (np_len la (x0 self))
      in case outer la self eye vs of
           None \<Rightarrow> None
         | Some (Inl e) \<Rightarrow> Some (Inl e)
         | Some (Inr vs) \<Rightarrow> Some (Inr (self\<lparr>sol := Some (v_x vs)\<rparr>, v_out vs)))"

text \<open>
  \<open>solve\<close> returns the value returned, the solver after the call and the events. The test
  \<open>self.sol == None\<close> is the test whether a solution has been stored, as it is under the
  numpy of the code's time, where an array never compares equal to \<open>None\<close>.
\<close>

definition solve ::
  "('v, 'm) linalg \<Rightarrow> ('v, 'm) Solver \<Rightarrow> (error + 'v \<times> ('v, 'm) Solver \<times> 'v event list) option" where
  "solve la self =
     (if algo self = ''newton'' then
        Some (Inr (x0 self, self,
                   [log_info (Text ''Run Newton solver''), log_warn (Text '' ... not implemented'')]))
      else if algo self = ''gauss'' then
        Some (Inr (x0 self, self,
                   [log_info (Text ''Run Gauss solver''), log_warn (Text '' ... not implemented'')]))
      else
        (case (if algo self = ''leven'' then
                 (case leven la self of
                    None \<Rightarrow> None
                  | Some (Inl e) \<Rightarrow> Some (Inl e)
                  | Some (Inr (self, out)) \<Rightarrow>
                      Some (Inr (self, log_info (Text ''Run Levenberg-Marquardt method'') # out)))
               else Some (Inr (self, [])))
         of None \<Rightarrow> None
          | Some (Inl e) \<Rightarrow> Some (Inl e)
          | Some (Inr (self, out)) \<Rightarrow>
              (case sol self of
                 None \<Rightarrow> Some (Inr (x0 self, self, out @ [log_warn (Text ''Wrong solver'')]))
               | Some y \<Rightarrow> Some (Inr (y, self, out)))))"

subsection \<open>Observations and iterations\<close>

definition is_warning :: "'v event \<Rightarrow> bool" where
  "is_warning e = (case e of Log label text \<Rightarrow> label = ''WARN:'' | _ \<Rightarrow> False)"

definition is_call :: "'v event \<Rightarrow> bool" where
  "is_call e = (case e of Log label text \<Rightarrow> False | _ \<Rightarrow> True)"

text \<open>
  \<open>outer_iters la self n vs\<close>: the outer loop, started with the initial values of \<open>leven\<close>,
  has completed \<open>n\<close> iterations and is at its head with the local variables \<open>vs\<close>. The
  guard of an iteration is written out as the spec words it: an iteration is entered while
  \<open>res > tol\<close> and \<open>i < maxx\<close> and \<open>|res - res_alt| > reltol\<close>.
\<close>

inductive outer_iters :: "('v, 'm) linalg \<Rightarrow> ('v, 'm) Solver \<Rightarrow> nat \<Rightarrow> 'v leven_vars \<Rightarrow> bool"
  for la :: "('v, 'm) linalg" and self :: "('v, 'm) Solver" where
  start: "outer_iters la self 0 (leven_init self)"
| iter: "outer_iters la self n vs \<Longrightarrow>
         v_res vs > tol self \<Longrightarrow> v_i vs < maxx self \<Longrightarrow> \<bar>v_res vs - v_res_alt vs\<bar> > reltol self \<Longrightarrow>
         outer_body la self (np_eye la (np_len la (x0 self))) vs = Some (Inr vs') \<Longrightarrow>
         outer_iters la self (Suc n) vs'"

subsection \<open>Concrete solvers\<close>

definition S_newton :: "(real, real) Solver" where
  "S_newton = Solver_init (\<lambda>x. x) (\<lambda>x. 1) 1 (1/100) 10 ''newton''"

definition S_leven :: "(real, real) Solver" where
  "S_leven = Solver_init (\<lambda>x. x) (\<lambda>x. 1) 1 (1/100) 1 ''leven''"

definition S_const :: "(real, real) Solver" where
  "S_const = Solver_init (\<lambda>x. 1) (\<lambda>x. 1) 1 (1/100) 1 ''leven''"



text \<open>
  The local variables of concrete runs: after one inner pass of \<open>S_const\<close>; after the inner
  loop of the first outer iteration of \<open>S_leven\<close>; and after that iteration.
\<close>

definition vs_search :: "real leven_vars" where
  "vs_search = \<lparr>v_i = 1, v_x = 1, v_res = 1, v_res_alt = 10 ^ 10, v_mu = 0.05, v_roh = Fin 1,
                v_s = Some (- (100 / 101)), v_normFx = Some 1,
                v_out = [CallF 1, CallDF 1, CallF (1 / 101)]\<rparr>"

definition vs_doubled :: "real leven_vars" where
  "vs_doubled = (leven_init S_const)\<lparr>v_mu := 0.2, v_roh := Fin 0, v_s := Some (- (100 / 101)),
                   v_normFx := Some 1, v_out := [CallF (1 / 101)]\<rparr>"

definition vs_first :: "real leven_vars" where
  "vs_first = \<lparr>v_i = 1, v_x = 1 / 101, v_res = 1, v_res_alt = 1, v_mu = 0.05, v_roh = Fin 0,
               v_s = Some (- (100 / 101)), v_normFx = Some 1,
               v_out = [CallF 1, CallDF 1, CallF (1 / 101), log_info (NIt 1 1)]\<rparr>"

section \<open>Properties of the chain finder\<close>

subsection \<open>The dictionary built by the first loop\<close>

lemma set_update_subset: "set (AList.update k v al) \<subseteq> insert (k, v) (set al)"
  by (induct al) auto

lemma update_key_present: "k \<in> fst ` set (AList.update k v al)"
  by (simp add: AList.dom_update)

lemma record_matches_distinct:
  "distinct (map fst cd) \<Longrightarrow> distinct (map fst (record_matches e xi syms cd))"
  unfolding record_matches_def
  by (induction syms arbitrary: cd) (simp_all add: AList.distinct_update)

lemma record_matches_subset:
  "set (record_matches e xi syms cd) \<subseteq> set cd \<union> {(k, xi) |k. e = Basic (Sym k) \<and> k \<in> set syms}"
  unfolding record_matches_def
proof (induction syms arbitrary: cd)
  case Nil
  show ?case by simp
next
  case (Cons a syms)
  show ?case
  proof (cases "e = Basic (Sym a)")
    case True
    have "set (fold (\<lambda>xx cd. if e = Basic (Sym xx) then AList.update xx xi cd else cd) syms (AList.update a xi cd))
        \<subseteq> set (AList.update a xi cd) \<union> {(k, xi) |k. e = Basic (Sym k) \<and> k \<in> set syms}"
      by (rule Cons.IH)
    with set_update_subset[of a xi cd] True show ?thesis by auto
  next
    case False
    with Cons.IH[of cd] show ?thesis by auto
  qed
qed

lemma record_matches_keys_mono:
  "fst ` set cd \<subseteq> fst ` set (record_matches e xi syms cd)"
  unfolding record_matches_def
proof (induction syms arbitrary: cd)
  case Nil
  show ?case by simp
next
  case (Cons a syms)
  have "fst ` set cd \<subseteq> fst ` set (AList.update a xi cd)"
    by (auto simp: AList.dom_update)
  with Cons.IH[of "AList.update a xi cd"]
  have a: "fst ` set cd \<subseteq> fst ` set (fold (\<lambda>xx cd. if e = Basic (Sym xx) then AList.update xx xi cd else cd)
              syms (AList.update a xi cd))" by blast
  show ?case
  proof (cases "e = Basic (Sym a)")
    case True
    with a show ?thesis by simp
  next
    case False
    with Cons.IH[of cd] show ?thesis by simp
  qed
qed

lemma record_matches_key:
  "e = Basic (Sym k) \<Longrightarrow> k \<in> set syms \<Longrightarrow> k \<in> fst ` set (record_matches e xi syms cd)"
proof (induction syms arbitrary: cd)
  case Nil
  then show ?case by simp
next
  case (Cons a syms)
  show ?case
  proof (cases "k = a")
    case True
    have "record_matches e xi (a # syms) cd = record_matches e xi syms (AList.update a xi cd)"
      using Cons.prems True by (simp add: record_matches_def)
    moreover have "a \<in> fst ` set (AList.update a xi cd)" by (rule update_key_present)
    ultimately show ?thesis using record_matches_keys_mono[of "AList.update a xi cd" e xi syms] True by auto
  next
    case False
    with Cons.prems have "k \<in> set syms" by simp
    from Cons.IH[OF Cons.prems(1) this] show ?thesis
      by (simp add: record_matches_def split: if_splits)
  qed
qed

lemma upd_prefix:
  assumes "i < length fi0"
  shows "(map h (take i fi0) @ drop i fi0)[i := h (fi0 ! i)] = map h (take (Suc i) fi0) @ drop (Suc i) fi0"
proof -
  have d: "drop i fi0 = fi0 ! i # drop (Suc i) fi0"
    using assms by (simp add: Cons_nth_drop_Suc)
  have l: "length (map h (take i fi0)) = i" using assms by simp
  have "(map h (take i fi0) @ drop i fi0)[i := h (fi0 ! i)]
      = map h (take i fi0) @ (fi0 ! i # drop (Suc i) fi0)[0 := h (fi0 ! i)]"
    unfolding d using l by (simp add: list_update_append)
  also have "\<dots> = map h (take (Suc i) fi0) @ drop (Suc i) fi0"
    using assms by (simp add: take_Suc_conv_app_nth)
  finally show ?thesis .
qed

lemma nth_prefix:
  assumes "i < length fi0"
  shows "(map h (take i fi0) @ drop i fi0) ! i = fi0 ! i"
  using assms by (simp add: nth_append)

lemma scan_step_eq:
  assumes i: "i < length fi0"
    and fi: "st_fi st = map (normalize_entry subs) (take i fi0) @ drop i fi0"
  shows "scan_step subs i (st, cd) =
          (st\<lparr>st_fi := map (normalize_entry subs) (take (Suc i) fi0) @ drop (Suc i) fi0\<rparr>,
           record_matches (normalize_entry subs (fi0 ! i)) (st_x_sym st ! i) (st_u_sym st)
             (record_matches (normalize_entry subs (fi0 ! i)) (st_x_sym st ! i) (st_x_sym st) cd))"
proof -
  have n: "st_fi st ! i = fi0 ! i" unfolding fi using i by (rule nth_prefix)
  have len: "i < length (st_fi st)" unfolding fi using i by simp
  have u: "(st_fi st)[i := normalize_entry subs (fi0 ! i)]
         = map (normalize_entry subs) (take (Suc i) fi0) @ drop (Suc i) fi0"
    unfolding fi using i by (rule upd_prefix)
  have n2: "(map (normalize_entry subs) (take (Suc i) fi0) @ drop (Suc i) fi0) ! i
          = normalize_entry subs (fi0 ! i)"
    using i by (simp add: nth_append)
  show ?thesis
  proof (cases "fi0 ! i")
    case (Basic b)
    with n u len n2 show ?thesis
      by (simp add: scan_step_def normalize_entry_def Let_def)
  next
    case (Number r)
    with n u have "st_fi st = map (normalize_entry subs) (take (Suc i) fi0) @ drop (Suc i) fi0"
      by (simp add: normalize_entry_def) (metis list_update_id)
    then have "st\<lparr>st_fi := map (normalize_entry subs) (take (Suc i) fi0) @ drop (Suc i) fi0\<rparr> = st"
      by simp
    with n Number show ?thesis
      by (simp add: scan_step_def normalize_entry_def Let_def)
  qed
qed

lemma scan_inv_step:
  assumes j: "j < length (st_fi st)" and inv: "scan_inv subs st j p"
  shows "scan_inv subs st (Suc j) (scan_step subs j p)"
proof -
  obtain st' cd where p: "p = (st', cd)" by (cases p)
  define e where "e = normalize_entry subs (st_fi st ! j)"
  define xi where "xi = st_x_sym st ! j"
  define cd1 where "cd1 = record_matches e xi (st_x_sym st) cd"
  define cd2 where "cd2 = record_matches e xi (st_u_sym st) cd1"
  from inv p have st': "st' = st\<lparr>st_fi := map (normalize_entry subs) (take j (st_fi st)) @ drop j (st_fi st)\<rparr>"
    and dist: "distinct (map fst cd)"
    and a: "\<forall>(k, v) \<in> set cd. \<exists>i<j. normalize_entry subs (st_fi st ! i) = Basic (Sym k)
          \<and> v = st_x_sym st ! i \<and> k \<in> set (st_x_sym st) \<union> set (st_u_sym st)"
    and b: "\<forall>i<j. \<forall>k. normalize_entry subs (st_fi st ! i) = Basic (Sym k)
          \<longrightarrow> k \<in> set (st_x_sym st) \<union> set (st_u_sym st) \<longrightarrow> k \<in> fst ` set cd"
    by (auto simp: scan_inv_def)
  have fi: "st_fi st' = map (normalize_entry subs) (take j (st_fi st)) @ drop j (st_fi st)"
    using st' by simp
  have step: "scan_step subs j p =
     (st\<lparr>st_fi := map (normalize_entry subs) (take (Suc j) (st_fi st)) @ drop (Suc j) (st_fi st)\<rparr>, cd2)"
    unfolding p scan_step_eq[OF j fi] using st' by (simp add: cd2_def cd1_def e_def xi_def)
  have d2: "distinct (map fst cd2)"
    unfolding cd2_def cd1_def by (intro record_matches_distinct dist)
  have sub: "set cd2 \<subseteq> set cd \<union> {(k, xi) |k. e = Basic (Sym k) \<and> k \<in> set (st_x_sym st) \<union> set (st_u_sym st)}"
    using record_matches_subset[of e xi "st_u_sym st" cd1] record_matches_subset[of e xi "st_x_sym st" cd]
    unfolding cd2_def cd1_def by blast
  have a2: "\<forall>(k, v) \<in> set cd2. \<exists>i<Suc j. normalize_entry subs (st_fi st ! i) = Basic (Sym k)
          \<and> v = st_x_sym st ! i \<and> k \<in> set (st_x_sym st) \<union> set (st_u_sym st)"
  proof (clarify)
    fix k v assume "(k, v) \<in> set cd2"
    with sub have "(k, v) \<in> set cd \<or> (v = xi \<and> e = Basic (Sym k) \<and> k \<in> set (st_x_sym st) \<union> set (st_u_sym st))"
      by blast
    then show "\<exists>i<Suc j. normalize_entry subs (st_fi st ! i) = Basic (Sym k)
          \<and> v = st_x_sym st ! i \<and> k \<in> set (st_x_sym st) \<union> set (st_u_sym st)"
    proof
      assume "(k, v) \<in> set cd"
      with a obtain i where "i < j" "normalize_entry subs (st_fi st ! i) = Basic (Sym k)"
        "v = st_x_sym st ! i" "k \<in> set (st_x_sym st) \<union> set (st_u_sym st)" by blast
      then show ?thesis using less_Suc_eq by blast
    next
      assume "v = xi \<and> e = Basic (Sym k) \<and> k \<in> set (st_x_sym st) \<union> set (st_u_sym st)"
      then show ?thesis unfolding e_def xi_def by blast
    qed
  qed
  have mono: "fst ` set cd \<subseteq> fst ` set cd2"
    using record_matches_keys_mono[of cd e xi "st_x_sym st"] record_matches_keys_mono[of cd1 e xi "st_u_sym st"]
    unfolding cd2_def cd1_def by blast
  have b2: "\<forall>i<Suc j. \<forall>k. normalize_entry subs (st_fi st ! i) = Basic (Sym k)
          \<longrightarrow> k \<in> set (st_x_sym st) \<union> set (st_u_sym st) \<longrightarrow> k \<in> fst ` set cd2"
  proof (intro allI impI)
    fix i k assume i: "i < Suc j" and n: "normalize_entry subs (st_fi st ! i) = Basic (Sym k)"
      and k: "k \<in> set (st_x_sym st) \<union> set (st_u_sym st)"
    show "k \<in> fst ` set cd2"
    proof (cases "i < j")
      case True
      with b n k mono show ?thesis by blast
    next
      case False
      with i have "i = j" by simp
      with n have ek: "e = Basic (Sym k)" by (simp add: e_def)
      from k show ?thesis
      proof
        assume "k \<in> set (st_x_sym st)"
        from record_matches_key[OF ek this, of xi cd] have "k \<in> fst ` set cd1" by (simp add: cd1_def)
        with record_matches_keys_mono[of cd1 e xi "st_u_sym st"] show ?thesis unfolding cd2_def by blast
      next
        assume "k \<in> set (st_u_sym st)"
        from record_matches_key[OF ek this, of xi cd1] show ?thesis by (simp add: cd2_def)
      qed
    qed
  qed
  show ?thesis unfolding step scan_inv_def using d2 a2 b2 by simp
qed

lemma scan_inv_fold:
  "j \<le> length (st_fi st) \<Longrightarrow> scan_inv subs st j (fold (scan_step subs) [0..<j] (st, []))"
proof (induction j)
  case 0
  show ?case by (simp add: scan_inv_def)
next
  case (Suc j)
  then have "scan_inv subs st j (fold (scan_step subs) [0..<j] (st, []))" and "j < length (st_fi st)"
    by simp_all
  from scan_inv_step[OF this(2) this(1)] show ?case by simp
qed

lemma build_chaindict_inv:
  "scan_inv subs st (length (st_fi st)) (build_chaindict subs st)"
  unfolding build_chaindict_def by (rule scan_inv_fold) simp

lemma build_chaindict_facts:
  assumes "build_chaindict subs st = (st1, cd)"
  shows "st1 = st\<lparr>st_fi := map (normalize_entry subs) (st_fi st)\<rparr>"
    and "distinct (map fst cd)"
    and "\<forall>(k, v) \<in> set cd. \<exists>i<length (st_fi st). normalize_entry subs (st_fi st ! i) = Basic (Sym k)
          \<and> v = st_x_sym st ! i \<and> k \<in> set (st_x_sym st) \<union> set (st_u_sym st)"
    and "\<forall>i<length (st_fi st). \<forall>k. normalize_entry subs (st_fi st ! i) = Basic (Sym k)
          \<longrightarrow> k \<in> set (st_x_sym st) \<union> set (st_u_sym st) \<longrightarrow> k \<in> fst ` set cd"
  using build_chaindict_inv[of subs st] assms by (simp_all add: scan_inv_def)

subsection \<open>Levels: why the chain walk ends\<close>

lemma rooted_0: "rooted f 0 w r \<longleftrightarrow> w = r \<and> f r = None"
  by (auto simp: rooted_def)

lemma rooted_Suc: "rooted f (Suc n) w r \<longleftrightarrow> (\<exists>w'. f w = Some w' \<and> rooted f n w' r)"
  by (auto simp: rooted_def split: option.splits)

lemma rooted_unique:
  "rooted f n w r \<Longrightarrow> rooted f m w r' \<Longrightarrow> n = m \<and> r = r'"
proof (induction n arbitrary: m w)
  case 0
  then show ?case by (cases m) (auto simp: rooted_0 rooted_Suc)
next
  case (Suc n)
  from Suc.prems(1) obtain w' where w': "f w = Some w'" "rooted f n w' r"
    by (auto simp: rooted_Suc)
  show ?case
  proof (cases m)
    case 0
    with Suc.prems(2) w' show ?thesis by (simp add: rooted_0)
  next
    case (Suc m')
    with Suc.prems(2) w' have "rooted f m' w' r'" by (simp add: rooted_Suc)
    from Suc.IH[OF w'(2) this] Suc show ?thesis by simp
  qed
qed

lemma rooted_remove:
  "rooted f m u r \<Longrightarrow> rooted f k w r' \<Longrightarrow> m < k \<Longrightarrow> rooted (f(w := None)) m u r"
proof (induction m arbitrary: u)
  case 0
  then show ?case by (simp add: rooted_0)
next
  case (Suc m)
  from Suc.prems(1) obtain u' where u': "f u = Some u'" "rooted f m u' r"
    by (auto simp: rooted_Suc)
  have ne: "u \<noteq> w"
  proof
    assume "u = w"
    with Suc.prems(1,2) rooted_unique[of f "Suc m" w r k r'] have "Suc m = k" by simp
    with Suc.prems(3) show False by simp
  qed
  have "m < k" using Suc.prems(3) by simp
  from Suc.IH[OF u'(2) Suc.prems(2) this] have ih: "rooted (f(w := None)) m u' r" .
  show ?case unfolding rooted_Suc
  proof (intro exI conjI)
    show "(f(w := None)) u = Some u'" using ne u' by simp
    show "rooted (f(w := None)) m u' r" by (rule ih)
  qed
qed

lemma rooted_bound:
  "rooted f n w r \<Longrightarrow> finite (dom f) \<Longrightarrow> n \<le> card (dom f)"
proof (induction n arbitrary: f w)
  case 0
  show ?case by simp
next
  case (Suc n)
  from Suc.prems(1) obtain w' where w': "f w = Some w'" "rooted f n w' r"
    by (auto simp: rooted_Suc)
  have "rooted (f(w := None)) n w' r"
    using rooted_remove[OF w'(2) Suc.prems(1)] by simp
  moreover have fin: "finite (dom (f(w := None)))" using Suc.prems(2) by simp
  ultimately have "n \<le> card (dom (f(w := None)))" by (rule Suc.IH)
  moreover have mem: "w \<in> dom f" using w' by auto
  have "card (dom f - {w}) < card (dom f)"
    using Suc.prems(2) mem by (rule card_Diff1_less)
  then have "card (dom (f(w := None))) < card (dom f)" by simp
  ultimately show ?case by simp
qed

lemma walk_returns:
  assumes inv: "\<And>v k. g v = Some k \<Longrightarrow> f k = Some v"
    and fin: "finite (dom f)"
  shows "rooted f j vv r \<Longrightarrow>
         \<exists>rest. walk g vv acc = Some (acc @ rest)
                \<and> (\<forall>x \<in> set rest. (\<exists>m. rooted f m x r) \<and> f x \<noteq> None)
                \<and> (g vv \<noteq> None \<longrightarrow> rest \<noteq> [])"
proof (induction "card (dom f) - j" arbitrary: j vv acc rule: less_induct)
  case less
  show ?case
  proof (cases "g vv")
    case None
    then have "walk g vv acc = Some (acc @ [])" by (subst walk.simps) simp
    with None show ?thesis by (intro exI[of _ "[]"]) simp
  next
    case (Some k)
    with inv have fk: "f k = Some vv" by simp
    with less.prems have rk: "rooted f (Suc j) k r" by (simp add: rooted_Suc)
    from rooted_bound[OF rk fin] have "card (dom f) - Suc j < card (dom f) - j" by simp
    from less.hyps[OF this rk, of "acc @ [k]"] obtain rest where
      w: "walk g k (acc @ [k]) = Some ((acc @ [k]) @ rest)" and
      p: "\<forall>x \<in> set rest. (\<exists>m. rooted f m x r) \<and> f x \<noteq> None" by blast
    have "walk g vv acc = Some (acc @ (k # rest))"
      using Some w by (subst walk.simps) simp
    moreover have "\<forall>x \<in> set (k # rest). (\<exists>m. rooted f m x r) \<and> f x \<noteq> None"
      using p rk fk by auto
    ultimately show ?thesis by blast
  qed
qed

subsection \<open>The flipped dictionary, the chain objects and the index selection\<close>

lemma flip_fold_sub:
  "fold (\<lambda>(k, v) d. d(v \<mapsto> k)) items m v = Some k \<Longrightarrow> m v = Some k \<or> (k, v) \<in> set items"
proof (induction items arbitrary: m)
  case Nil
  then show ?case by simp
next
  case (Cons a items)
  obtain k' v' where a: "a = (k', v')" by (cases a)
  from Cons.prems have "fold (\<lambda>(k, v) d. d(v \<mapsto> k)) items (m(v' \<mapsto> k')) v = Some k"
    unfolding a by (simp only: fold_simps split_conv)
  from Cons.IH[OF this] have "(m(v' \<mapsto> k')) v = Some k \<or> (k, v) \<in> set items" .
  then show ?case unfolding a by (cases "v = v'") auto
qed

lemma flip_fold_dom:
  "fold (\<lambda>(k, v) d. d(v \<mapsto> k)) items m v = None \<longleftrightarrow> m v = None \<and> v \<notin> snd ` set items"
proof (induction items arbitrary: m)
  case Nil
  show ?case by simp
next
  case (Cons a items)
  obtain k' v' where a: "a = (k', v')" by (cases a)
  have "fold (\<lambda>(k, v) d. d(v \<mapsto> k)) (a # items) m v = fold (\<lambda>(k, v) d. d(v \<mapsto> k)) items (m(v' \<mapsto> k')) v"
    unfolding a by (simp only: fold_simps split_conv)
  moreover have "fold (\<lambda>(k, v) d. d(v \<mapsto> k)) items (m(v' \<mapsto> k')) v = None
      \<longleftrightarrow> (m(v' \<mapsto> k')) v = None \<and> v \<notin> snd ` set items" by (rule Cons.IH)
  moreover have "((m(v' \<mapsto> k')) v = None \<and> v \<notin> snd ` set items)
      \<longleftrightarrow> (m v = None \<and> v \<notin> snd ` set (a # items))"
    unfolding a by (cases "v = v'") auto
  ultimately show ?case by (simp only:)
qed

lemma flip_dict_Some:
  assumes "set (ordr cd) = set cd" and "flip_dict ordr cd v = Some k"
  shows "(k, v) \<in> set cd"
  using flip_fold_sub[of "ordr cd" Map.empty v k] assms by (simp add: flip_dict_def)

lemma flip_dict_None:
  assumes "set (ordr cd) = set cd"
  shows "flip_dict ordr cd v = None \<longleftrightarrow> v \<notin> snd ` set cd"
  using flip_fold_dom[of "ordr cd" Map.empty v] assms by (simp add: flip_dict_def)

lemma those_map_total:
  "\<forall>x \<in> set xs. h x \<noteq> None \<Longrightarrow> those (map h xs) = Some (map (\<lambda>x. the (h x)) xs)"
  by (induction xs) auto

lemma map_err_init:
  "\<forall>tc \<in> set tcs. tc \<noteq> [] \<Longrightarrow> map_err IntegChain_init tcs = Inr (map mk_chain tcs)"
proof (induction tcs)
  case Nil
  show ?case by simp
next
  case (Cons tc tcs)
  then have "tc \<noteq> []" by simp
  then have "IntegChain_init tc = Inr (mk_chain tc)"
    by (cases tc) (simp_all add: IntegChain_init_def mk_chain_def)
  with Cons show ?case by simp
qed

lemma list_index_Some: "list_index xs y = Some i \<Longrightarrow> i < length xs \<and> xs ! i = y"
  by (induction xs arbitrary: i) (auto split: if_splits)

lemma list_index_None: "list_index xs y = None \<longleftrightarrow> y \<notin> set xs"
  by (induction xs) auto

lemma collect_eqind_Inr:
  "collect_eqind xs ics acc = Inr res \<Longrightarrow>
     set res \<subseteq> set acc \<union> {i. i < length xs}
   \<and> ((\<forall>ic \<in> set ics. lower ic \<notin> set xs \<or> \<not> startswith_x (name (lower ic))) \<longrightarrow> res = acc)"
proof (induction xs ics acc rule: collect_eqind.induct)
  case (1 x_sym eqind)
  then show ?case by simp
next
  case (2 x_sym ic ics eqind)
  show ?case
  proof (cases "startswith_x (name (lower ic))")
    case False
    with 2 show ?thesis by simp
  next
    case True
    with "2.prems" obtain idx where idx: "list_index x_sym (lower ic) = Some idx"
      and rec: "collect_eqind x_sym ics (eqind @ [idx]) = Inr res"
      by (auto split: option.splits)
    from list_index_Some[OF idx] have i: "idx < length x_sym" "lower ic \<in> set x_sym"
      by (simp, metis nth_mem)
    from "2.IH"(1)[OF True idx rec] i True show ?thesis by auto
  qed
qed

lemma collect_eqind_Inl:
  "collect_eqind xs ics acc = Inl e \<Longrightarrow>
     e = ValueError \<and> (\<exists>ic \<in> set ics. startswith_x (name (lower ic)) \<and> lower ic \<notin> set xs)"
proof (induction xs ics acc rule: collect_eqind.induct)
  case (1 x_sym eqind)
  then show ?case by simp
next
  case (2 x_sym ic ics eqind)
  show ?case
  proof (cases "startswith_x (name (lower ic))")
    case False
    with 2 show ?thesis by simp
  next
    case True
    show ?thesis
    proof (cases "list_index x_sym (lower ic)")
      case None
      with True "2.prems" list_index_None[of x_sym "lower ic"] show ?thesis by auto
    next
      case (Some idx)
      with True "2.prems" have "collect_eqind x_sym ics (eqind @ [idx]) = Inl e" by simp
      from "2.IH"(1)[OF True Some this] show ?thesis by auto
    qed
  qed
qed

lemma select_eqind_Inr:
  assumes "select_eqind xs ics = Inr eqind"
  shows "(ics = [] \<longrightarrow> eqind = [0..<length xs])
       \<and> ((\<forall>ic \<in> set ics. lower ic \<notin> set xs \<or> \<not> startswith_x (name (lower ic))) \<longrightarrow> eqind = [0..<length xs])
       \<and> (\<forall>i \<in> set eqind. i < length xs) \<and> sorted eqind"
proof (cases "ics = []")
  case True
  with assms show ?thesis by (auto simp: select_eqind_def)
next
  case False
  with assms obtain res where c: "collect_eqind xs ics [] = Inr res"
    and e: "eqind = (if sort res = [] then [0..<length xs] else sort res)"
    by (auto simp: select_eqind_def Let_def split: sum.splits if_splits)
  from collect_eqind_Inr[OF c] have s: "set res \<subseteq> {i. i < length xs}"
    and n: "(\<forall>ic \<in> set ics. lower ic \<notin> set xs \<or> \<not> startswith_x (name (lower ic))) \<longrightarrow> res = []" by auto
  have "\<forall>i \<in> set eqind. i < length xs"
  proof (cases "sort res = []")
    case True with e show ?thesis by simp
  next
    case False with e s show ?thesis by auto
  qed
  moreover have "sorted eqind" using e by simp
  moreover have "(\<forall>ic \<in> set ics. lower ic \<notin> set xs \<or> \<not> startswith_x (name (lower ic))) \<longrightarrow> eqind = [0..<length xs]"
    using n e by auto
  ultimately show ?thesis using False by simp
qed

lemma select_eqind_Inl:
  assumes "select_eqind xs ics = Inl e"
  shows "e = ValueError \<and> (\<exists>ic \<in> set ics. startswith_x (name (lower ic)) \<and> lower ic \<notin> set xs)"
proof -
  from assms have "collect_eqind xs ics [] = Inl e"
    by (auto simp: select_eqind_def Let_def split: sum.splits if_splits)
  then show ?thesis by (rule collect_eqind_Inl)
qed

subsection \<open>The shape of the result\<close>

lemma fic_structure:
  assumes perm: "\<forall>d. mset (ordr d) = mset d"
    and len: "length (st_fi st) = length (st_x_sym st)"
    and bc: "build_chaindict subs st = (st1, cd)"
  shows "\<exists>ics. find_integrator_chains subs ordr st =
            Some (st1, case select_eqind (st_x_sym st) ics of
                         Inl e \<Rightarrow> Inl e | Inr eqind \<Rightarrow> Inr (ics, eqind))
       \<and> length ics = length (find_uppers ordr cd)
       \<and> (\<forall>i<length ics. \<exists>rest. rest \<noteq> [] \<and> elements (ics ! i) = find_uppers ordr cd ! i # rest
              \<and> upper (ics ! i) = find_uppers ordr cd ! i \<and> lower (ics ! i) = last rest
              \<and> (\<forall>x \<in> set rest. map_of cd x \<noteq> None)
              \<and> (\<forall>x \<in> set (elements (ics ! i)). \<exists>m. rooted (map_of cd) m x (find_uppers ordr cd ! i)))"
proof -
  define f where "f = map_of cd"
  define g where "g = flip_dict ordr cd"
  define uppers where "uppers = find_uppers ordr cd"
  define h where "h = (\<lambda>var. walk g var [var])"
  note facts = build_chaindict_facts[OF bc]
  have x1: "st_x_sym st1 = st_x_sym st" using facts(1) by simp
  have so: "set (ordr cd) = set cd" using perm by (metis mset_eq_setD)
  have inv: "\<And>v k. g v = Some k \<Longrightarrow> f k = Some v"
    using flip_dict_Some[of ordr cd, OF so] facts(2) unfolding g_def f_def by simp
  have fin: "finite (dom f)" unfolding f_def by (rule finite_dom_map_of)
  have up: "\<And>v. v \<in> set uppers \<Longrightarrow> f v = None \<and> g v \<noteq> None"
  proof -
    fix v assume "v \<in> set uppers"
    then have a: "\<not> has_key cd v" and b: "v \<in> snd ` set (ordr cd)"
      by (auto simp: uppers_def find_uppers_def)
    from a have "f v = None" by (simp add: has_key_def f_def)
    moreover from b so have "g v \<noteq> None" unfolding g_def by (simp add: flip_dict_None[of ordr cd, OF so])
    ultimately show "f v = None \<and> g v \<noteq> None" by simp
  qed
  have hw: "\<And>v. v \<in> set uppers \<Longrightarrow>
     \<exists>rest. h v = Some (v # rest) \<and> rest \<noteq> [] \<and> (\<forall>x \<in> set rest. f x \<noteq> None)
            \<and> (\<forall>x \<in> set (v # rest). \<exists>m. rooted f m x v)"
  proof -
    fix v assume v: "v \<in> set uppers"
    from up[OF v] have r0: "rooted f 0 v v" and gv: "g v \<noteq> None" by (simp_all add: rooted_0)
    from walk_returns[of g f 0 v v "[v]", OF inv fin r0] gv
    obtain rest where "walk g v [v] = Some ([v] @ rest)"
      "\<forall>x \<in> set rest. (\<exists>m. rooted f m x v) \<and> f x \<noteq> None" "rest \<noteq> []"
      by blast
    with r0 show "\<exists>rest. h v = Some (v # rest) \<and> rest \<noteq> [] \<and> (\<forall>x \<in> set rest. f x \<noteq> None)
            \<and> (\<forall>x \<in> set (v # rest). \<exists>m. rooted f m x v)"
      unfolding h_def by (intro exI[of _ rest]) auto
  qed
  define tmpchains where "tmpchains = map (\<lambda>x. the (h x)) uppers"
  define ics where "ics = map mk_chain tmpchains"
  have "\<forall>v \<in> set uppers. h v \<noteq> None" using hw by fastforce
  then have th: "those (map h uppers) = Some tmpchains"
    unfolding tmpchains_def by (rule those_map_total)
  have ne: "\<forall>tc \<in> set tmpchains. tc \<noteq> []"
    unfolding tmpchains_def using hw by fastforce
  then have me: "map_err IntegChain_init tmpchains = Inr ics"
    unfolding ics_def by (rule map_err_init)
  have res: "find_integrator_chains subs ordr st =
            Some (st1, case select_eqind (st_x_sym st) ics of
                         Inl e \<Rightarrow> Inl e | Inr eqind \<Rightarrow> Inr (ics, eqind))"
    using len bc th me x1
    by (simp add: find_integrator_chains_def Let_def uppers_def[symmetric] g_def[symmetric] h_def[symmetric]
          split: sum.splits)
  have l: "length ics = length uppers" by (simp add: ics_def tmpchains_def)
  have el: "\<forall>i<length ics. \<exists>rest. rest \<noteq> [] \<and> elements (ics ! i) = uppers ! i # rest
              \<and> upper (ics ! i) = uppers ! i \<and> lower (ics ! i) = last rest
              \<and> (\<forall>x \<in> set rest. f x \<noteq> None)
              \<and> (\<forall>x \<in> set (elements (ics ! i)). \<exists>m. rooted f m x (uppers ! i))"
  proof (intro allI impI)
    fix i assume i: "i < length ics"
    with l have iu: "i < length uppers" by simp
    then have "uppers ! i \<in> set uppers" by simp
    from hw[OF this] obtain rest where r: "h (uppers ! i) = Some (uppers ! i # rest)" "rest \<noteq> []"
      "\<forall>x \<in> set rest. f x \<noteq> None"
      "\<forall>x \<in> set (uppers ! i # rest). \<exists>m. rooted f m x (uppers ! i)" by blast
    have "ics ! i = mk_chain (uppers ! i # rest)"
      using iu r(1) by (simp add: ics_def tmpchains_def)
    with r show "\<exists>rest. rest \<noteq> [] \<and> elements (ics ! i) = uppers ! i # rest
              \<and> upper (ics ! i) = uppers ! i \<and> lower (ics ! i) = last rest
              \<and> (\<forall>x \<in> set rest. f x \<noteq> None)
              \<and> (\<forall>x \<in> set (elements (ics ! i)). \<exists>m. rooted f m x (uppers ! i))"
      by (intro exI[of _ rest]) (simp add: mk_chain_def)
  qed
  from res l el show ?thesis unfolding uppers_def f_def by blast
qed

lemma fic_Inr_len:
  "find_integrator_chains subs ordr st = Some (st', Inr p) \<Longrightarrow> length (st_fi st) = length (st_x_sym st)"
  by (auto simp: find_integrator_chains_def Let_def split: if_splits)

subsection \<open>Concrete calls\<close>

lemmas sym_defs = x1_def x2_def x3_def x4_def u1_def u2_def

lemmas fic_eval = find_integrator_chains_def build_chaindict_def scan_step_def record_matches_def
  find_uppers_def flip_dict_def has_key_def walk.simps IntegChain_init_def select_eqind_def
  startswith_x_def sym_defs upt_rec

lemma fic_st_chain_id:
  "find_integrator_chains subs_one id st_chain = Some (st_chain, Inr ([chain_x1], [0, 1, 2]))"
  by (simp add: st_chain_def chain_x1_def fic_eval)

lemma fic_st_dup_id:
  "find_integrator_chains subs_one id st_dup = Some (st_dup, Inr ([chain_dup, chain_dup], [0, 1]))"
  by (simp add: st_dup_def chain_dup_def fic_eval)

lemma fic_st_two_id:
  "find_integrator_chains subs_one id st_two = Some (st_two_after, Inr ([chain_a, chain_b], [3]))"
  by (simp add: st_two_def st_two_after_def chain_a_def chain_b_def fic_eval)

lemma perm_id: "\<forall>d. mset (id d) = mset d"
  by simp

lemma bc_st_chain:
  "build_chaindict subs_one st_chain = (st_chain, [(x2, x1), (x3, x2), (u1, x3)])"
  by (simp add: st_chain_def build_chaindict_def scan_step_def record_matches_def sym_defs upt_rec)

subsection \<open>The triple integrator\<close>

text \<open>
  Claim C1, as stated, says that for \<open>fi = [x2, x3, u1]\<close>, \<open>x_sym = [x1, x2, x3]\<close> and
  \<open>u_sym = [u1]\<close> the one chain is \<open>[u1, x3, x2, x1]\<close> with upper end \<open>u1\<close> and lower end
  \<open>x1\<close>, and that \<open>eqind = [0]\<close>. The call returns the chain \<open>[x1, x2, x3, u1]\<close> with upper
  end \<open>x1\<close> and lower end \<open>u1\<close>, and \<open>eqind = [0, 1, 2]\<close>.
\<close>

theorem triple_integrator_chain_counterexample:
  "find_integrator_chains subs_one id st_chain = Some (st_chain, Inr ([chain_x1], [0, 1, 2]))
   \<and> elements chain_x1 \<noteq> [u1, x3, x2, x1] \<and> upper chain_x1 \<noteq> u1 \<and> lower chain_x1 \<noteq> x1
   \<and> [0, 1, 2] \<noteq> [0 :: nat]"
  using fic_st_chain_id by (simp add: chain_x1_def sym_defs)

text \<open>
  Claim C1, amended: for this input and every enumeration order of the dictionary, the
  call returns exactly one chain, with the elements \<open>[x1, x2, x3, u1]\<close>, upper end \<open>x1\<close> and
  lower end \<open>u1\<close>; the lower end being an input, \<open>eqind\<close> is all indices \<open>[0, 1, 2]\<close>. The
  sequence \<open>fi\<close> is left as it was.
\<close>

theorem triple_integrator_chain:
  assumes perm: "\<forall>d. mset (ordr d) = mset d"
  shows "find_integrator_chains subs_one ordr st_chain = Some (st_chain, Inr ([chain_x1], [0, 1, 2]))"
proof -
  define cd where "cd = [(x2, x1), (x3, x2), (u1, x3)]"
  define g where "g = flip_dict ordr cd"
  have so: "set (ordr cd) = set cd" using perm by (metis mset_eq_setD)
  have "mset (find_uppers ordr cd) = {#x1#}"
    unfolding find_uppers_def using perm by (simp add: cd_def has_key_def sym_defs)
  then have up: "find_uppers ordr cd = [x1]" by simp
  have look: "g v = Some k \<longleftrightarrow> (k, v) \<in> set cd" for v k
  proof
    assume "g v = Some k"
    then show "(k, v) \<in> set cd" unfolding g_def by (rule flip_dict_Some[of ordr cd, OF so])
  next
    assume kv: "(k, v) \<in> set cd"
    then have "v \<in> snd ` set cd" by force
    then have "g v \<noteq> None" unfolding g_def by (simp add: flip_dict_None[of ordr cd, OF so])
    then obtain k' where k': "g v = Some k'" by auto
    then have "(k', v) \<in> set cd" unfolding g_def by (rule flip_dict_Some[of ordr cd, OF so])
    with kv have "k' = k" by (auto simp: cd_def sym_defs)
    with k' show "g v = Some k" by simp
  qed
  have g1: "g x1 = Some x2" and g2: "g x2 = Some x3" and g3: "g x3 = Some u1"
    by (simp_all add: look cd_def)
  have "u1 \<notin> snd ` set cd" by (simp add: cd_def sym_defs)
  then have g4: "g u1 = None" unfolding g_def by (simp add: flip_dict_None[of ordr cd, OF so])
  have w: "walk g x1 [x1] = Some [x1, x2, x3, u1]"
    by (subst walk.simps, simp add: g1, subst walk.simps, simp add: g2,
        subst walk.simps, simp add: g3, subst walk.simps, simp add: g4)
  have sel: "select_eqind [x1, x2, x3] [chain_x1] = Inr [0, 1, 2]"
    by (simp add: select_eqind_def chain_x1_def startswith_x_def sym_defs upt_rec)
  have xs: "st_x_sym st_chain = [x1, x2, x3]" "length (st_fi st_chain) = 3"
    by (simp_all add: st_chain_def)
  have init: "IntegChain_init [x1, x2, x3, u1] = Inr chain_x1"
    by (simp add: IntegChain_init_def chain_x1_def)
  show ?thesis
    unfolding find_integrator_chains_def bc_st_chain Let_def
    by (simp add: xs cd_def[symmetric] up g_def[symmetric] w init sel)
qed

theorem triple_integrator_chain_witness:
  "find_integrator_chains subs_one id st_chain = Some (st_chain, Inr ([chain_x1], [0, 1, 2]))"
  using triple_integrator_chain [of id, OF perm_id] .

subsection \<open>The indices to solve by collocation\<close>

text \<open>
  Claim C2: for every input with \<open>len(fi) = len(x_sym) = n\<close> the call ends, and not by
  an exception other than the ValueError of \<open>x_sym.index\<close> (raised only if an input symbol
  whose name starts with \<open>x\<close> is not in \<open>x_sym\<close>). When it returns: if no chain was found,
  \<open>eqind\<close> is all indices \<open>0..n-1\<close>; if chains were found but none has as its lower end a
  symbol of \<open>x_sym\<close> whose name starts with \<open>x\<close>, \<open>eqind\<close> is all indices \<open>0..n-1\<close>; in every
  case every index in \<open>eqind\<close> is below \<open>n\<close> and \<open>eqind\<close> is sorted.
\<close>

theorem eqind_fallback:
  assumes perm: "\<forall>d. mset (ordr d) = mset d"
    and len: "length (st_fi st) = length (st_x_sym st)"
  shows "\<exists>st' r. find_integrator_chains subs ordr st = Some (st', r)
       \<and> (\<forall>e. r = Inl e \<longrightarrow> e = ValueError
              \<and> (\<exists>u \<in> set (st_u_sym st). startswith_x (name u) \<and> u \<notin> set (st_x_sym st)))
       \<and> (\<forall>ics eqind. r = Inr (ics, eqind) \<longrightarrow>
              (ics = [] \<longrightarrow> eqind = [0..<length (st_x_sym st)])
            \<and> (ics \<noteq> [] \<and> (\<forall>ic \<in> set ics. lower ic \<notin> set (st_x_sym st) \<or> \<not> startswith_x (name (lower ic)))
                 \<longrightarrow> eqind = [0..<length (st_x_sym st)])
            \<and> (\<forall>i \<in> set eqind. i < length (st_x_sym st))
            \<and> sorted eqind)"
proof -
  obtain st1 cd where bc: "build_chaindict subs st = (st1, cd)" by (cases "build_chaindict subs st")
  from fic_structure[OF perm len bc] obtain ics where
    res: "find_integrator_chains subs ordr st =
            Some (st1, case select_eqind (st_x_sym st) ics of
                         Inl e \<Rightarrow> Inl e | Inr eqind \<Rightarrow> Inr (ics, eqind))"
    and el: "\<forall>i<length ics. \<exists>rest. rest \<noteq> [] \<and> elements (ics ! i) = find_uppers ordr cd ! i # rest
              \<and> upper (ics ! i) = find_uppers ordr cd ! i \<and> lower (ics ! i) = last rest
              \<and> (\<forall>x \<in> set rest. map_of cd x \<noteq> None)
              \<and> (\<forall>x \<in> set (elements (ics ! i)). \<exists>m. rooted (map_of cd) m x (find_uppers ordr cd ! i))"
    by blast
  note facts = build_chaindict_facts[OF bc]
  have lowkey: "\<forall>ic \<in> set ics. lower ic \<in> set (st_x_sym st) \<union> set (st_u_sym st)"
  proof
    fix ic assume "ic \<in> set ics"
    then obtain i where i: "i < length ics" "ic = ics ! i" by (auto simp: in_set_conv_nth)
    with el obtain rest where "rest \<noteq> []" "lower ic = last rest" "\<forall>x \<in> set rest. map_of cd x \<noteq> None"
      by blast
    then have "map_of cd (lower ic) \<noteq> None" by simp
    then obtain v where "(lower ic, v) \<in> set cd" by (auto dest: map_of_SomeD)
    with facts(3) show "lower ic \<in> set (st_x_sym st) \<union> set (st_u_sym st)" by blast
  qed
  show ?thesis
  proof (cases "select_eqind (st_x_sym st) ics")
    case (Inl e)
    from select_eqind_Inl[OF Inl] lowkey
    have "e = ValueError \<and> (\<exists>u \<in> set (st_u_sym st). startswith_x (name u) \<and> u \<notin> set (st_x_sym st))"
      by blast
    with res Inl show ?thesis by simp
  next
    case (Inr eqind)
    from select_eqind_Inr[OF Inr] res Inr show ?thesis by simp
  qed
qed

theorem eqind_fallback_witness:
  "\<exists>st' ics eqind. find_integrator_chains subs_one id st_chain = Some (st', Inr (ics, eqind))
      \<and> ics \<noteq> [] \<and> eqind = [0..<length (st_x_sym st_chain)] \<and> sorted eqind"
proof -
  have len: "length (st_fi st_chain) = length (st_x_sym st_chain)" by (simp add: st_chain_def)
  have low: "lower chain_x1 \<notin> set (st_x_sym st_chain)"
    by (simp add: chain_x1_def st_chain_def sym_defs)
  from eqind_fallback [of id st_chain subs_one, OF perm_id len]
  obtain st' r where a: "find_integrator_chains subs_one id st_chain = Some (st', r)"
    and b: "\<forall>ics eqind. r = Inr (ics, eqind) \<longrightarrow>
              (ics = [] \<longrightarrow> eqind = [0..<length (st_x_sym st_chain)])
            \<and> (ics \<noteq> [] \<and> (\<forall>ic \<in> set ics. lower ic \<notin> set (st_x_sym st_chain) \<or> \<not> startswith_x (name (lower ic)))
                 \<longrightarrow> eqind = [0..<length (st_x_sym st_chain)])
            \<and> (\<forall>i \<in> set eqind. i < length (st_x_sym st_chain))
            \<and> sorted eqind" by blast
  from a fic_st_chain_id have r: "r = Inr ([chain_x1], [0, 1, 2])" by simp
  from b r low have "[0, 1, 2] = [0..<length (st_x_sym st_chain)] \<and> sorted [0, 1, 2 :: nat]" by simp
  with fic_st_chain_id show ?thesis by simp
qed

subsection \<open>The effect on the arguments\<close>

text \<open>
  Claim C9: for every input with \<open>len(fi) = len(x_sym)\<close> the call ends and leaves the
  store with every entry of \<open>fi\<close> that is an expression replaced by its substituted form,
  and with \<open>x_sym\<close> and \<open>u_sym\<close> as they were. The comparisons read the replaced entries:
  the items of \<open>chaindict\<close> are exactly the matches of normalised entries with symbols of
  \<open>x_sym\<close> and \<open>u_sym\<close>.
\<close>

theorem fi_normalized_in_place:
  assumes perm: "\<forall>d. mset (ordr d) = mset d"
    and len: "length (st_fi st) = length (st_x_sym st)"
  shows "\<exists>st' r. find_integrator_chains subs ordr st = Some (st', r)
       \<and> st_fi st' = map (normalize_entry subs) (st_fi st)
       \<and> st_x_sym st' = st_x_sym st \<and> st_u_sym st' = st_u_sym st
       \<and> (\<forall>k v. (k, v) \<in> set (snd (build_chaindict subs st)) \<longrightarrow>
             (\<exists>i<length (st_fi st). normalize_entry subs (st_fi st ! i) = Basic (Sym k) \<and> v = st_x_sym st ! i))
       \<and> (\<forall>i k. i < length (st_fi st) \<and> normalize_entry subs (st_fi st ! i) = Basic (Sym k)
               \<and> k \<in> set (st_x_sym st) \<union> set (st_u_sym st)
             \<longrightarrow> k \<in> fst ` set (snd (build_chaindict subs st)))"
proof -
  obtain st1 cd where bc: "build_chaindict subs st = (st1, cd)" by (cases "build_chaindict subs st")
  from fic_structure[OF perm len bc] obtain r where
    res: "find_integrator_chains subs ordr st = Some (st1, r)" by blast
  note facts = build_chaindict_facts[OF bc]
  have a: "\<forall>k v. (k, v) \<in> set cd \<longrightarrow>
             (\<exists>i<length (st_fi st). normalize_entry subs (st_fi st ! i) = Basic (Sym k) \<and> v = st_x_sym st ! i)"
    using facts(3) by blast
  have b: "\<forall>i k. i < length (st_fi st) \<and> normalize_entry subs (st_fi st ! i) = Basic (Sym k)
               \<and> k \<in> set (st_x_sym st) \<union> set (st_u_sym st) \<longrightarrow> k \<in> fst ` set cd"
    using facts(4) by blast
  from res facts(1) a b show ?thesis unfolding bc by simp
qed

theorem fi_normalized_in_place_witness:
  "\<exists>r. find_integrator_chains subs_one id st_two = Some (st_two_after, r)
     \<and> st_fi st_two_after = map (normalize_entry subs_one) (st_fi st_two)
     \<and> st_fi st_two_after \<noteq> st_fi st_two
     \<and> st_x_sym st_two_after = st_x_sym st_two \<and> st_u_sym st_two_after = st_u_sym st_two"
proof -
  have len: "length (st_fi st_two) = length (st_x_sym st_two)" by (simp add: st_two_def)
  have ne: "st_fi st_two_after \<noteq> st_fi st_two" by (simp add: st_two_def st_two_after_def)
  from fi_normalized_in_place [of id st_two subs_one, OF perm_id len]
  obtain st' r where a: "find_integrator_chains subs_one id st_two = Some (st', r)"
    and b: "st_fi st' = map (normalize_entry subs_one) (st_fi st_two)"
      "st_x_sym st' = st_x_sym st_two" "st_u_sym st' = st_u_sym st_two" by blast
  from a fic_st_two_id have "st' = st_two_after" by simp
  with a b ne show ?thesis by simp
qed

subsection \<open>The chains\<close>

text \<open>
  Claim C10, as stated, says that the chains returned are pairwise disjoint. With
  \<open>x_sym = [x1, x1]\<close>, \<open>u_sym = [u1, u2]\<close> and \<open>fi = [u1, u2]\<close> the call returns the same chain
  twice, so \<open>x1\<close> is an element of two chains of the list.
\<close>

theorem chains_disjoint_counterexample:
  "find_integrator_chains subs_one id st_dup = Some (st_dup, Inr ([chain_dup, chain_dup], [0, 1]))
   \<and> IntegChain_contains ([chain_dup, chain_dup] ! 0) x1
   \<and> IntegChain_contains ([chain_dup, chain_dup] ! 1) x1"
  using fic_st_dup_id by (simp add: IntegChain_contains_def chain_dup_def)

text \<open>
  Claim C10, amended: every chain returned has at least two elements; and if no symbol
  occurs twice in \<open>x_sym\<close>, no symbol is an element of two different chains of the list
  returned.
\<close>

theorem chains_disjoint:
  assumes perm: "\<forall>d. mset (ordr d) = mset d"
    and ret: "find_integrator_chains subs ordr st = Some (st', Inr (ics, eqind))"
  shows "(\<forall>ic \<in> set ics. 2 \<le> IntegChain_len ic)
       \<and> (distinct (st_x_sym st) \<longrightarrow>
            (\<forall>i j. i < j \<and> j < length ics \<longrightarrow>
               (\<forall>s. \<not> (IntegChain_contains (ics ! i) s \<and> IntegChain_contains (ics ! j) s))))"
proof -
  note len = fic_Inr_len[OF ret]
  obtain st1 cd where bc: "build_chaindict subs st = (st1, cd)" by (cases "build_chaindict subs st")
  define uppers where "uppers = find_uppers ordr cd"
  from fic_structure[OF perm len bc] obtain ics' where
    res: "find_integrator_chains subs ordr st =
            Some (st1, case select_eqind (st_x_sym st) ics' of
                         Inl e \<Rightarrow> Inl e | Inr eqind \<Rightarrow> Inr (ics', eqind))"
    and l: "length ics' = length uppers"
    and el: "\<forall>i<length ics'. \<exists>rest. rest \<noteq> [] \<and> elements (ics' ! i) = uppers ! i # rest
              \<and> upper (ics' ! i) = uppers ! i \<and> lower (ics' ! i) = last rest
              \<and> (\<forall>x \<in> set rest. map_of cd x \<noteq> None)
              \<and> (\<forall>x \<in> set (elements (ics' ! i)). \<exists>m. rooted (map_of cd) m x (uppers ! i))"
    unfolding uppers_def by blast
  from res ret have eq: "ics' = ics" by (auto split: sum.splits)
  note facts = build_chaindict_facts[OF bc]
  have two: "\<forall>ic \<in> set ics. 2 \<le> IntegChain_len ic"
  proof
    fix ic assume "ic \<in> set ics"
    then obtain i where i: "i < length ics" "ic = ics ! i" by (auto simp: in_set_conv_nth)
    with el eq obtain rest where "rest \<noteq> []" "elements ic = uppers ! i # rest" by blast
    then show "2 \<le> IntegChain_len ic" by (cases rest) (simp_all add: IntegChain_len_def)
  qed
  have dis: "\<forall>i j. i < j \<and> j < length ics \<longrightarrow>
               (\<forall>s. \<not> (IntegChain_contains (ics ! i) s \<and> IntegChain_contains (ics ! j) s))"
    if dx: "distinct (st_x_sym st)"
  proof -
    have inj: "inj_on snd (set cd)"
    proof (rule inj_onI)
      fix p q assume p: "p \<in> set cd" and q: "q \<in> set cd" and s: "snd p = snd q"
      obtain k1 v1 where p': "p = (k1, v1)" by (cases p)
      obtain k2 v2 where q': "q = (k2, v2)" by (cases q)
      from facts(3) p p' obtain i1 where i1: "i1 < length (st_fi st)"
        "normalize_entry subs (st_fi st ! i1) = Basic (Sym k1)" "v1 = st_x_sym st ! i1" by blast
      from facts(3) q q' obtain i2 where i2: "i2 < length (st_fi st)"
        "normalize_entry subs (st_fi st ! i2) = Basic (Sym k2)" "v2 = st_x_sym st ! i2" by blast
      from s p' q' i1(3) i2(3) have "st_x_sym st ! i1 = st_x_sym st ! i2" by simp
      with dx i1(1) i2(1) len have "i1 = i2" by (simp add: nth_eq_iff_index_eq)
      with i1(2) i2(2) have "k1 = k2" by simp
      with s p' q' show "p = q" by simp
    qed
    have "distinct cd" using facts(2) by (simp add: distinct_map)
    with inj have "distinct (map snd cd)" by (simp add: distinct_map)
    moreover have "mset (map snd (ordr cd)) = mset (map snd cd)" using perm by simp
    ultimately have "distinct (map snd (ordr cd))" by (metis mset_eq_imp_distinct_iff)
    then have du: "distinct uppers" unfolding uppers_def find_uppers_def by (rule distinct_filter)
    show ?thesis
    proof (intro allI impI notI)
      fix i j s
      assume ij: "i < j \<and> j < length ics"
        and c: "IntegChain_contains (ics ! i) s \<and> IntegChain_contains (ics ! j) s"
      from ij el eq c obtain m where m: "rooted (map_of cd) m s (uppers ! i)"
        unfolding IntegChain_contains_def by (meson less_trans)
      from ij el eq c obtain m' where m': "rooted (map_of cd) m' s (uppers ! j)"
        unfolding IntegChain_contains_def by meson
      from rooted_unique[OF m m'] have "uppers ! i = uppers ! j" by simp
      with du ij l eq have "i = j" by (simp add: nth_eq_iff_index_eq)
      with ij show False by simp
    qed
  qed
  from two dis show ?thesis by blast
qed

theorem chains_disjoint_witness:
  "distinct (st_x_sym st_two) \<and> 2 \<le> IntegChain_len chain_a \<and> 2 \<le> IntegChain_len chain_b
   \<and> \<not> (IntegChain_contains chain_a x3 \<and> IntegChain_contains chain_b x3)"
proof -
  have d: "distinct (st_x_sym st_two)" by (simp add: st_two_def sym_defs)
  from chains_disjoint [of id subs_one st_two st_two_after "[chain_a, chain_b]" "[3]", OF perm_id fic_st_two_id] d
  have "(\<forall>ic \<in> set [chain_a, chain_b]. 2 \<le> IntegChain_len ic)"
    and "\<forall>i j. i < j \<and> j < length [chain_a, chain_b] \<longrightarrow>
               (\<forall>s. \<not> (IntegChain_contains ([chain_a, chain_b] ! i) s \<and> IntegChain_contains ([chain_a, chain_b] ! j) s))"
    by blast+
  from this(1) this(2)[rule_format, of 0 1 x3] d show ?thesis by simp
qed

section \<open>Properties of the solver\<close>

subsection \<open>Induction rules for the loops\<close>

text \<open>
  The partial-correctness rules of the two loops, with the hypothesis that the loop returns
  as the fact to eliminate.
\<close>

lemmas damping_induct = damping.raw_induct [rotated -1, consumes 1, case_names step]

lemmas outer_induct = outer.raw_induct [rotated -1, consumes 1, case_names step]

subsection \<open>What the loops leave unchanged\<close>

lemma damping_pass_frame:
  assumes "damping_pass la self eye Fx DFx vs = Inr vs'"
  shows "v_i vs' = v_i vs \<and> v_x vs' = v_x vs \<and> v_res vs' = v_res vs \<and> v_res_alt vs' = v_res_alt vs
       \<and> v_normFx vs' = Some (np_norm la Fx) \<and> (\<exists>s. v_s vs' = Some s)
       \<and> (\<exists>xs. v_out vs' = v_out vs @ [CallF xs])"
  using assms by (auto simp: damping_pass_def Let_def split: sum.splits)

lemma damping_frame_aux:
  assumes "damping la self eye Fx DFx vs = Some y"
  shows "\<forall>vs2. y = Inr vs2 \<longrightarrow>
           v_i vs2 = v_i vs \<and> v_x vs2 = v_x vs \<and> v_res vs2 = v_res vs \<and> v_res_alt vs2 = v_res_alt vs
         \<and> (\<forall>e \<in> set (v_out vs2). e \<in> set (v_out vs) \<or> \<not> is_warning e)
         \<and> (if fl_less (v_roh vs) b0 then v_normFx vs2 = Some (np_norm la Fx) \<and> (\<exists>s. v_s vs2 = Some s)
             else vs2 = vs)"
  using assms
proof (induction rule: damping_induct)
  case (step damping' la self eye Fx DFx vs y)
  show ?case
  proof (cases "fl_less (v_roh vs) b0")
    case False
    with step(2) show ?thesis by auto
  next
    case True
    show ?thesis
    proof (cases "damping_pass la self eye Fx DFx vs")
      case (Inl e)
      with True step(2) show ?thesis by auto
    next
      case (Inr vs')
      with True step(2) have rec: "damping' la self eye Fx DFx vs' = Some y" by simp
      note ih = step(1)[OF rec]
      note fr = damping_pass_frame[OF Inr]
      show ?thesis
      proof (intro allI impI)
        fix vs2 assume y: "y = Inr vs2"
        from ih y have a: "v_i vs2 = v_i vs' \<and> v_x vs2 = v_x vs' \<and> v_res vs2 = v_res vs' \<and> v_res_alt vs2 = v_res_alt vs'"
          and b: "\<forall>e \<in> set (v_out vs2). e \<in> set (v_out vs') \<or> \<not> is_warning e"
          and c: "if fl_less (v_roh vs') b0 then v_normFx vs2 = Some (np_norm la Fx) \<and> (\<exists>s. v_s vs2 = Some s)
             else vs2 = vs'" by blast+
        from fr obtain xs where xs: "v_out vs' = v_out vs @ [CallF xs]" by blast
        have b': "\<forall>e \<in> set (v_out vs2). e \<in> set (v_out vs) \<or> \<not> is_warning e"
          using b xs by (auto simp: is_warning_def)
        have c': "v_normFx vs2 = Some (np_norm la Fx) \<and> (\<exists>s. v_s vs2 = Some s)"
          using c fr by (cases "fl_less (v_roh vs') b0") auto
        from a b' c' fr True
        show "v_i vs2 = v_i vs \<and> v_x vs2 = v_x vs \<and> v_res vs2 = v_res vs \<and> v_res_alt vs2 = v_res_alt vs
         \<and> (\<forall>e \<in> set (v_out vs2). e \<in> set (v_out vs) \<or> \<not> is_warning e)
         \<and> (if fl_less (v_roh vs) b0 then v_normFx vs2 = Some (np_norm la Fx) \<and> (\<exists>s. v_s vs2 = Some s)
             else vs2 = vs)" by simp
      qed
    qed
  qed
qed

lemma damping_frame:
  assumes "damping la self eye Fx DFx vs = Some (Inr vs2)"
  shows "v_i vs2 = v_i vs" "v_x vs2 = v_x vs" "v_res vs2 = v_res vs" "v_res_alt vs2 = v_res_alt vs"
    "\<forall>e \<in> set (v_out vs2). e \<in> set (v_out vs) \<or> \<not> is_warning e"
    "fl_less (v_roh vs) b0 \<Longrightarrow> v_normFx vs2 = Some (np_norm la Fx) \<and> (\<exists>s. v_s vs2 = Some s)"
  using damping_frame_aux[OF assms] by (simp_all split: if_splits)

lemma outer_body_facts:
  assumes "outer_body la self eye vs = Some (Inr vs')" and "fl_less (v_roh vs) b0"
  shows "v_i vs' = v_i vs + 1" "v_roh vs' = Fin 0"
    "v_res vs' = np_norm la (F self (v_x vs))" "v_res_alt vs' = v_res vs"
    "\<exists>s. v_s vs' = Some s \<and> v_x vs' = np_add_v la (v_x vs) s"
    "\<forall>e \<in> set (v_out vs'). e \<in> set (v_out vs) \<or> \<not> is_warning e"
proof -
  define vs1 where "vs1 = vs\<lparr>v_i := v_i vs + 1, v_out := v_out vs @ [CallF (v_x vs), CallDF (v_x vs)]\<rparr>"
  define Fx where "Fx = F self (v_x vs)"
  define DFx where "DFx = csr_matrix la (DF self (v_x vs))"
  from assms(1) obtain vs2 where d: "damping la self eye Fx DFx vs1 = Some (Inr vs2)"
    and r: "case (v_s vs2, v_normFx vs2) of
                (Some s, Some normFx) \<Rightarrow>
                  vs' = (vs2\<lparr>v_roh := Fin 0.0,
                                 v_x := np_add_v la (v_x vs2) s,
                                 v_res_alt := v_res vs2,
                                 v_res := normFx,
                                 v_out := v_out vs2 @ [log_info (NIt (v_i vs2) normFx)]\<rparr>)
              | _ \<Rightarrow> False"
    by (auto simp: outer_body_def Let_def vs1_def Fx_def DFx_def split: option.splits sum.splits)
  have lt: "fl_less (v_roh vs1) b0" using assms(2) by (simp add: vs1_def)
  note fr = damping_frame[OF d]
  from fr(6)[OF lt] obtain s where s: "v_s vs2 = Some s" and n: "v_normFx vs2 = Some (np_norm la Fx)" by blast
  from r s n have vs': "vs' = (vs2\<lparr>v_roh := Fin 0.0,
                                 v_x := np_add_v la (v_x vs2) s,
                                 v_res_alt := v_res vs2,
                                 v_res := np_norm la Fx,
                                 v_out := v_out vs2 @ [log_info (NIt (v_i vs2) (np_norm la Fx))]\<rparr>)" by simp
  show "v_i vs' = v_i vs + 1" using vs' fr(1) by (simp add: vs1_def)
  show "v_roh vs' = Fin 0" using vs' by simp
  show "v_res vs' = np_norm la (F self (v_x vs))" using vs' by (simp add: Fx_def)
  show "v_res_alt vs' = v_res vs" using vs' fr(3) by (simp add: vs1_def)
  show "\<exists>s. v_s vs' = Some s \<and> v_x vs' = np_add_v la (v_x vs) s" using vs' s fr(2) by (simp add: vs1_def)
  show "\<forall>e \<in> set (v_out vs'). e \<in> set (v_out vs) \<or> \<not> is_warning e"
    using vs' fr(5) by (auto simp: vs1_def is_warning_def log_info_def)
qed

lemma outer_iters_inv:
  assumes "outer_iters la self n vs"
  shows "v_roh vs = Fin 0 \<and> v_i vs = int n \<and> int n \<le> max 0 (maxx self)
       \<and> (\<forall>e \<in> set (v_out vs). \<not> is_warning e)"
  using assms
proof (induction rule: outer_iters.induct)
  case start
  then show ?case by (simp add: leven_init_def)
next
  case (iter n vs vs')
  from iter.IH have lt: "fl_less (v_roh vs) b0" by (simp add: b0_def)
  note f = outer_body_facts[OF iter.hyps(5) lt]
  from iter.hyps(3) iter.IH f show ?case by auto
qed

subsection \<open>The outer loop and its iterations\<close>

lemma outer_to_iters_aux:
  assumes "outer la self eye vs = Some y"
  shows "\<forall>n vf. eye = np_eye la (np_len la (x0 self)) \<longrightarrow> outer_iters la self n vs \<longrightarrow> y = Inr vf \<longrightarrow>
           (\<exists>m. outer_iters la self m vf \<and> \<not> outer_cond self vf)"
  using assms
proof (induction rule: outer_induct)
  case (step outer' la self eye vs y)
  show ?case
  proof (cases "outer_cond self vs")
    case False
    with step(2) show ?thesis by auto
  next
    case True
    show ?thesis
    proof (intro allI impI)
      fix n vf
      assume e: "eye = np_eye la (np_len la (x0 self))" and it: "outer_iters la self n vs" and y: "y = Inr vf"
      from step(2) True y obtain vs' where b: "outer_body la self eye vs = Some (Inr vs')"
        and rec: "outer' la self eye vs' = Some y"
        by (auto split: option.splits sum.splits)
      from True have g: "v_res vs > tol self" "v_i vs < maxx self" "\<bar>v_res vs - v_res_alt vs\<bar> > reltol self"
        by (simp_all add: outer_cond_def)
      have "outer_iters la self (Suc n) vs'"
        using outer_iters.iter[OF it g] b e by simp
      with step(1)[OF rec] e y show "\<exists>m. outer_iters la self m vf \<and> \<not> outer_cond self vf" by blast
    qed
  qed
qed

lemma iters_to_outer:
  assumes "outer_iters la self n vs"
  shows "outer la self (np_eye la (np_len la (x0 self))) vs =
         outer la self (np_eye la (np_len la (x0 self))) (leven_init self)"
  using assms
proof (induction rule: outer_iters.induct)
  case start
  show ?case by simp
next
  case (iter n vs vs')
  have "outer_cond self vs" using iter.hyps(2,3,4) by (simp add: outer_cond_def)
  then have "outer la self (np_eye la (np_len la (x0 self))) vs = outer la self (np_eye la (np_len la (x0 self))) vs'"
    using iter.hyps(5) by (subst outer.simps) simp
  with iter.IH show ?case by simp
qed

lemma leven_returns_iff:
  "leven la self = Some (Inr (self', out)) \<longleftrightarrow>
     (\<exists>n vs. outer_iters la self n vs \<and> \<not> outer_cond self vs
            \<and> self' = self\<lparr>sol := Some (v_x vs)\<rparr> \<and> out = v_out vs)"
proof
  assume l: "leven la self = Some (Inr (self', out))"
  then obtain vs where o: "outer la self (np_eye la (np_len la (x0 self))) (leven_init self) = Some (Inr vs)"
    and r: "self' = self\<lparr>sol := Some (v_x vs)\<rparr>" "out = v_out vs"
    by (auto simp: leven_def Let_def split: option.splits sum.splits)
  from outer_to_iters_aux[OF o] outer_iters.start[of la self]
  obtain m where "outer_iters la self m vs" "\<not> outer_cond self vs" by blast
  with r show "\<exists>n vs. outer_iters la self n vs \<and> \<not> outer_cond self vs
            \<and> self' = self\<lparr>sol := Some (v_x vs)\<rparr> \<and> out = v_out vs" by blast
next
  assume "\<exists>n vs. outer_iters la self n vs \<and> \<not> outer_cond self vs
            \<and> self' = self\<lparr>sol := Some (v_x vs)\<rparr> \<and> out = v_out vs"
  then obtain n vs where it: "outer_iters la self n vs" and c: "\<not> outer_cond self vs"
    and r: "self' = self\<lparr>sol := Some (v_x vs)\<rparr>" "out = v_out vs" by blast
  have "outer la self (np_eye la (np_len la (x0 self))) vs = Some (Inr vs)"
    using c by (subst outer.simps) simp
  with iters_to_outer[OF it]
  have "outer la self (np_eye la (np_len la (x0 self))) (leven_init self) = Some (Inr vs)" by simp
  with r show "leven la self = Some (Inr (self', out))" by (simp add: leven_def Let_def)
qed

subsection \<open>The stored solution does not influence a run\<close>

lemma damping_pass_sol: "damping_pass la (self\<lparr>sol := z\<rparr>) = damping_pass la self"
  by (auto simp: damping_pass_def fun_eq_iff Let_def split: sum.splits)

lemma damping_sol_aux:
  assumes "damping la self eye Fx DFx vs = Some y"
  shows "\<forall>z. damping la (self\<lparr>sol := z\<rparr>) eye Fx DFx vs = Some y"
  using assms
proof (induction rule: damping_induct)
  case (step damping' la self eye Fx DFx vs y)
  show ?case
  proof
    fix z
    show "damping la (self\<lparr>sol := z\<rparr>) eye Fx DFx vs = Some y"
    proof (cases "fl_less (v_roh vs) b0")
      case False
      with step(2) show ?thesis by (subst damping.simps) simp
    next
      case True
      show ?thesis
      proof (cases "damping_pass la self eye Fx DFx vs")
        case (Inl e)
        with True step(2) have "y = Inl e" by simp
        with True Inl show ?thesis by (subst damping.simps) (simp add: damping_pass_sol)
      next
        case (Inr vs')
        with True step(2) have "damping' la self eye Fx DFx vs' = Some y" by simp
        from step(1)[OF this] have "damping la (self\<lparr>sol := z\<rparr>) eye Fx DFx vs' = Some y" by blast
        with True Inr show ?thesis by (subst damping.simps) (simp add: damping_pass_sol)
      qed
    qed
  qed
qed

lemma damping_sol: "damping la (self\<lparr>sol := z\<rparr>) eye Fx DFx vs = damping la self eye Fx DFx vs"
proof (cases "damping la self eye Fx DFx vs")
  case (Some y)
  with damping_sol_aux[OF Some] show ?thesis by simp
next
  case None
  show ?thesis
  proof (cases "damping la (self\<lparr>sol := z\<rparr>) eye Fx DFx vs")
    case None': None
    with None show ?thesis by simp
  next
    case (Some y)
    from damping_sol_aux[OF Some] have "damping la (self\<lparr>sol := z, sol := sol self\<rparr>) eye Fx DFx vs = Some y"
      by blast
    with None show ?thesis by simp
  qed
qed

lemma outer_body_sol: "outer_body la (self\<lparr>sol := z\<rparr>) eye vs = outer_body la self eye vs"
  by (simp add: outer_body_def damping_sol)

lemma outer_cond_sol: "outer_cond (self\<lparr>sol := z\<rparr>) vs = outer_cond self vs"
  by (simp add: outer_cond_def)

lemma outer_sol_aux:
  assumes "outer la self eye vs = Some y"
  shows "\<forall>z. outer la (self\<lparr>sol := z\<rparr>) eye vs = Some y"
  using assms
proof (induction rule: outer_induct)
  case (step outer' la self eye vs y)
  show ?case
  proof
    fix z
    show "outer la (self\<lparr>sol := z\<rparr>) eye vs = Some y"
    proof (cases "outer_cond self vs")
      case False
      with step(2) show ?thesis by (subst outer.simps) (simp add: outer_cond_sol)
    next
      case True
      show ?thesis
      proof (cases "outer_body la self eye vs")
        case None
        with True step(2) show ?thesis by simp
      next
        case (Some b)
        show ?thesis
        proof (cases b)
          case (Inl e)
          with True Some step(2) have "y = Inl e" by simp
          with True Some Inl show ?thesis
            by (subst outer.simps) (simp add: outer_cond_sol outer_body_sol)
        next
          case (Inr vs')
          with True Some step(2) have "outer' la self eye vs' = Some y" by simp
          from step(1)[OF this] have "outer la (self\<lparr>sol := z\<rparr>) eye vs' = Some y" by blast
          with True Some Inr show ?thesis
            by (subst outer.simps) (simp add: outer_cond_sol outer_body_sol)
        qed
      qed
    qed
  qed
qed

lemma outer_sol: "outer la (self\<lparr>sol := z\<rparr>) eye vs = outer la self eye vs"
proof (cases "outer la self eye vs")
  case (Some y)
  with outer_sol_aux[OF Some] show ?thesis by simp
next
  case None
  show ?thesis
  proof (cases "outer la (self\<lparr>sol := z\<rparr>) eye vs")
    case None': None
    with None show ?thesis by simp
  next
    case (Some y)
    from outer_sol_aux[OF Some] have "outer la (self\<lparr>sol := z, sol := sol self\<rparr>) eye vs = Some y"
      by blast
    with None show ?thesis by simp
  qed
qed

lemma leven_sol:
  "leven la self = Some (Inr (self', out)) \<Longrightarrow> leven la self' = Some (Inr (self', out))"
  by (auto simp: leven_def Let_def outer_sol leven_init_def split: option.splits sum.splits)

subsection \<open>Concrete runs\<close>

lemma pass_S_const:
  "damping_pass la1 S_const 1 1 1 (leven_init S_const) = Inr vs_doubled"
  by (simp add: damping_pass_def la1_def S_const_def Solver_init_def leven_init_def vs_doubled_def
      fdiv_def b0_def b1_def power2_eq_square)

lemma body_S_leven:
  "outer_body la1 S_leven (np_eye la1 (np_len la1 (x0 S_leven))) (leven_init S_leven) = Some (Inr vs_first)"
  by (simp add: outer_body_def damping.simps damping_pass_def la1_def S_leven_def Solver_init_def
      leven_init_def vs_first_def fdiv_def b0_def b1_def power2_eq_square)

lemma damping_S_leven:
  "damping la1 S_leven (np_eye la1 (np_len la1 (x0 S_leven))) (F S_leven (v_x (leven_init S_leven)))
     (csr_matrix la1 (DF S_leven (v_x (leven_init S_leven))))
     ((leven_init S_leven)\<lparr>v_i := v_i (leven_init S_leven) + 1,
        v_out := v_out (leven_init S_leven) @ [CallF (v_x (leven_init S_leven)), CallDF (v_x (leven_init S_leven))]\<rparr>)
   = Some (Inr vs_search)"
  by (simp add: damping.simps damping_pass_def la1_def S_leven_def Solver_init_def
      leven_init_def vs_search_def fdiv_def b0_def b1_def power2_eq_square)

lemma solve_S_const_pass:
  "np_solve la1 (np_add_m la1 (np_dot_mm la1 (np_T la1 1) 1) (np_scale_m la1 ((v_mu (leven_init S_const))\<^sup>2) 1))
     (np_dot_mv la1 (np_T la1 1) 1) = Inr (100 / 101)"
  by (simp add: la1_def leven_init_def power2_eq_square)


lemma cond_S_leven: "outer_cond S_leven (leven_init S_leven)"
  by (simp add: outer_cond_def S_leven_def Solver_init_def leven_init_def)

lemma not_cond_vs_first: "\<not> outer_cond S_leven vs_first"
  by (simp add: outer_cond_def S_leven_def Solver_init_def vs_first_def)

lemma leven_S_leven:
  "leven la1 S_leven = Some (Inr (S_leven\<lparr>sol := Some (1 / 101)\<rparr>, v_out vs_first))"
proof -
  have "outer la1 S_leven (np_eye la1 (np_len la1 (x0 S_leven))) (leven_init S_leven) = Some (Inr vs_first)"
    by (subst outer.simps, simp add: cond_S_leven body_S_leven, subst outer.simps, simp add: not_cond_vs_first)
  then show ?thesis by (simp add: leven_def vs_first_def)
qed

lemma solve_S_leven:
  "solve la1 S_leven = Some (Inr (1 / 101, S_leven\<lparr>sol := Some (1 / 101)\<rparr>,
      log_info (Text ''Run Levenberg-Marquardt method'') # v_out vs_first))"
  by (simp add: solve_def leven_S_leven) (simp add: S_leven_def Solver_init_def)


subsection \<open>The unimplemented algorithms\<close>

text \<open>
  Claim C3: for every \<open>F\<close>, \<open>DF\<close> and \<open>x0\<close>, \<open>solve\<close> on a solver whose algorithm is
  \<open>"newton"\<close> or \<open>"gauss"\<close> returns \<open>x0\<close> itself, leaves the solver as it was, evaluates
  neither \<open>F\<close> nor \<open>DF\<close>, and writes exactly one warning.
\<close>

theorem solve_unimplemented:
  assumes "algo self = ''newton'' \<or> algo self = ''gauss''"
  shows "\<exists>out. solve la self = Some (Inr (x0 self, self, out))
           \<and> filter is_call out = [] \<and> length (filter is_warning out) = 1"
  using assms by (auto simp: solve_def is_call_def is_warning_def log_info_def log_warn_def)

theorem solve_unimplemented_witness:
  "\<exists>out. solve la1 S_newton = Some (Inr (x0 S_newton, S_newton, out))
           \<and> filter is_call out = [] \<and> length (filter is_warning out) = 1"
  using solve_unimplemented [of S_newton la1] by (simp add: S_newton_def Solver_init_def)

subsection \<open>The damping parameter\<close>

lemma fl_le_not_ge: "fl_le r b0 \<Longrightarrow> \<not> fl_ge r b1"
  by (cases r) (simp_all add: b0_def b1_def)

lemma fl_less_not_ge: "fl_less r b \<Longrightarrow> \<not> fl_ge r b"
  by (cases r) simp_all

text \<open>
  Claim C4: the inner loop runs a pass while \<open>roh < 0.2\<close> and returns its variables
  otherwise. A pass whose linear system is solved (with solution \<open>y\<close>, so \<open>s = -y\<close>)
  yields new variables. In these, \<open>roh\<close> is the ratio computed in this pass from \<open>s\<close>;
  \<open>mu\<close> is twice its old value if \<open>roh \<le> 0.2\<close>, half its old value if \<open>roh \<ge> 0.8\<close>, and
  its old value otherwise, both tests reading the same \<open>roh\<close>. In particular \<open>mu\<close> doubles
  in every pass with \<open>roh \<le> 0.2\<close> and \<open>roh < 0.8\<close>.
\<close>

theorem damping_pass_mu:
  assumes "np_solve la (np_add_m la (np_dot_mm la (np_T la DFx) DFx) (np_scale_m la ((v_mu vs)\<^sup>2) eye))
             (np_dot_mv la (np_T la DFx) Fx) = Inr y"
  shows "\<exists>vs'. damping_pass la self eye Fx DFx vs = Inr vs'
       \<and> (fl_less (v_roh vs) 0.2 \<longrightarrow> damping la self eye Fx DFx vs = damping la self eye Fx DFx vs')
       \<and> (\<not> fl_less (v_roh vs) 0.2 \<longrightarrow> damping la self eye Fx DFx vs = Some (Inr vs))
       \<and> v_s vs' = Some (np_neg la y)
       \<and> v_roh vs' =
              fdiv ((np_norm la Fx)\<^sup>2 - (np_norm la (F self (np_add_v la (v_x vs) (np_neg la y))))\<^sup>2)
                   ((np_norm la Fx)\<^sup>2 - (np_norm la (np_add_v la Fx (np_dot_mv la DFx (np_neg la y))))\<^sup>2)
       \<and> (fl_le (v_roh vs') 0.2 \<longrightarrow> v_mu vs' = 2.0 * v_mu vs)
       \<and> (fl_ge (v_roh vs') 0.8 \<longrightarrow> v_mu vs' = 0.5 * v_mu vs)
       \<and> (\<not> fl_le (v_roh vs') 0.2 \<and> \<not> fl_ge (v_roh vs') 0.8 \<longrightarrow> v_mu vs' = v_mu vs)
       \<and> (fl_le (v_roh vs') 0.2 \<and> fl_less (v_roh vs') 0.8 \<longrightarrow> v_mu vs' = 2 * v_mu vs)"
proof -
  define s where "s = np_neg la y"
  define roh where "roh = fdiv ((np_norm la Fx)\<^sup>2 - (np_norm la (F self (np_add_v la (v_x vs) s)))\<^sup>2)
                   ((np_norm la Fx)\<^sup>2 - (np_norm la (np_add_v la Fx (np_dot_mv la DFx s)))\<^sup>2)"
  define mu where "mu = (if fl_ge roh b1 then 0.5 * (if fl_le roh b0 then 2.0 * v_mu vs else v_mu vs)
                        else (if fl_le roh b0 then 2.0 * v_mu vs else v_mu vs))"
  define vs' where "vs' = vs\<lparr>v_mu := mu, v_roh := roh, v_s := Some s, v_normFx := Some (np_norm la Fx),
                          v_out := v_out vs @ [CallF (np_add_v la (v_x vs) s)]\<rparr>"
  have pass: "damping_pass la self eye Fx DFx vs = Inr vs'"
    using assms by (simp add: damping_pass_def Let_def vs'_def mu_def roh_def s_def)
  have loop1: "fl_less (v_roh vs) 0.2 \<longrightarrow> damping la self eye Fx DFx vs = damping la self eye Fx DFx vs'"
    using pass by (subst damping.simps) (simp add: b0_def)
  have loop2: "\<not> fl_less (v_roh vs) 0.2 \<longrightarrow> damping la self eye Fx DFx vs = Some (Inr vs)"
    by (subst damping.simps) (simp add: b0_def)
  have s: "v_s vs' = Some (np_neg la y)" and r: "v_roh vs' = roh" and m: "v_mu vs' = mu"
    by (simp_all add: vs'_def s_def)
  have ex: "\<not> (fl_le roh b0 \<and> fl_ge roh b1)" using fl_le_not_ge by blast
  have m1: "fl_le roh 0.2 \<longrightarrow> mu = 2.0 * v_mu vs"
    using ex by (auto simp: mu_def b0_def b1_def)
  have m2: "fl_ge roh 0.8 \<longrightarrow> mu = 0.5 * v_mu vs"
    using ex by (auto simp: mu_def b0_def b1_def)
  have m3: "\<not> fl_le roh 0.2 \<and> \<not> fl_ge roh 0.8 \<longrightarrow> mu = v_mu vs"
    by (simp add: mu_def b0_def b1_def)
  have m4: "fl_le roh 0.2 \<and> fl_less roh 0.8 \<longrightarrow> mu = 2 * v_mu vs"
    using m1 by simp
  show ?thesis
    by (intro exI[of _ vs'] conjI pass loop1 loop2 s)
       (simp_all only: r m, simp add: roh_def s_def, rule m1, rule m2, rule m3, rule m4)
qed

theorem damping_pass_mu_witness:
  "damping_pass la1 S_const 1 1 1 (leven_init S_const) = Inr vs_doubled
   \<and> fl_less (v_roh (leven_init S_const)) 0.2
   \<and> fl_le (v_roh vs_doubled) 0.2 \<and> fl_less (v_roh vs_doubled) 0.8
   \<and> v_mu (leven_init S_const) = 0.1 \<and> v_mu vs_doubled = 2 * v_mu (leven_init S_const)"
proof -
  from damping_pass_mu [OF solve_S_const_pass, of S_const]
  obtain vs' where p: "damping_pass la1 S_const 1 1 1 (leven_init S_const) = Inr vs'"
    and d: "fl_le (v_roh vs') 0.2 \<and> fl_less (v_roh vs') 0.8 \<longrightarrow> v_mu vs' = 2 * v_mu (leven_init S_const)"
    by blast
  from p pass_S_const have e: "vs' = vs_doubled" by simp
  have r: "fl_le (v_roh vs_doubled) 0.2 \<and> fl_less (v_roh vs_doubled) 0.8"
    by (simp add: vs_doubled_def)
  have h: "fl_less (v_roh (leven_init S_const)) 0.2" "v_mu (leven_init S_const) = 0.1"
    by (simp_all add: leven_init_def)
  from d e r have "v_mu vs_doubled = 2 * v_mu (leven_init S_const)" by simp
  with pass_S_const r h show ?thesis by simp
qed

subsection \<open>The residual of an outer iteration\<close>

text \<open>
  Claim C5: in every outer iteration of \<open>leven\<close> whose inner loop returns, the iteration
  completes: the iterate moves by the accepted step \<open>s\<close>, \<open>res\<close> becomes the norm of \<open>F\<close> at
  the iterate before that step, the previous \<open>res\<close> goes to \<open>res_alt\<close>, and \<open>i\<close> is one more.
  The witness is the first iteration of a run, where the stored \<open>res\<close> is 1 and the norm of
  \<open>F\<close> at the new iterate is 1/101.
\<close>

theorem leven_residual_lags:
  assumes "outer_iters la self n vs"
    and "damping la self (np_eye la (np_len la (x0 self))) (F self (v_x vs))
           (csr_matrix la (DF self (v_x vs)))
           (vs\<lparr>v_i := v_i vs + 1, v_out := v_out vs @ [CallF (v_x vs), CallDF (v_x vs)]\<rparr>)
         = Some (Inr vs2)"
  shows "\<exists>vs' s. outer_body la self (np_eye la (np_len la (x0 self))) vs = Some (Inr vs')
       \<and> v_s vs2 = Some s
       \<and> v_x vs' = np_add_v la (v_x vs) s
       \<and> v_res vs' = np_norm la (F self (v_x vs))
       \<and> v_res_alt vs' = v_res vs
       \<and> v_i vs' = v_i vs + 1"
proof -
  define vs1 where "vs1 = vs\<lparr>v_i := v_i vs + 1, v_out := v_out vs @ [CallF (v_x vs), CallDF (v_x vs)]\<rparr>"
  from outer_iters_inv[OF assms(1)] have lt: "fl_less (v_roh vs1) b0" by (simp add: b0_def vs1_def)
  note d = assms(2)[folded vs1_def]
  note fr = damping_frame[OF d]
  from fr(6)[OF lt] obtain s where s: "v_s vs2 = Some s"
    and nf: "v_normFx vs2 = Some (np_norm la (F self (v_x vs)))" by blast
  define vs' where "vs' = vs2\<lparr>v_roh := Fin 0.0, v_x := np_add_v la (v_x vs2) s, v_res_alt := v_res vs2,
                             v_res := np_norm la (F self (v_x vs)),
                             v_out := v_out vs2 @ [log_info (NIt (v_i vs2) (np_norm la (F self (v_x vs))))]\<rparr>"
  have body: "outer_body la self (np_eye la (np_len la (x0 self))) vs = Some (Inr vs')"
    using d s nf by (simp add: outer_body_def Let_def vs1_def vs'_def)
  have "v_x vs' = np_add_v la (v_x vs) s" "v_res vs' = np_norm la (F self (v_x vs))"
    "v_res_alt vs' = v_res vs" "v_i vs' = v_i vs + 1"
    using fr(1,2,3) by (simp_all add: vs'_def vs1_def)
  with body s show ?thesis by blast
qed

theorem leven_residual_lags_witness:
  "outer_body la1 S_leven (np_eye la1 (np_len la1 (x0 S_leven))) (leven_init S_leven) = Some (Inr vs_first)
   \<and> v_res vs_first = np_norm la1 (F S_leven (v_x (leven_init S_leven)))
   \<and> v_res vs_first \<noteq> np_norm la1 (F S_leven (v_x vs_first))
   \<and> v_res_alt vs_first = v_res (leven_init S_leven)
   \<and> v_i vs_first = v_i (leven_init S_leven) + 1"
proof -
  have a: "outer_iters la1 S_leven 0 (leven_init S_leven)" by (rule outer_iters.start)
  from leven_residual_lags [OF a damping_S_leven]
  obtain vs' where b: "outer_body la1 S_leven (np_eye la1 (np_len la1 (x0 S_leven))) (leven_init S_leven) = Some (Inr vs')"
    and c: "v_res vs' = np_norm la1 (F S_leven (v_x (leven_init S_leven)))"
      "v_res_alt vs' = v_res (leven_init S_leven)" "v_i vs' = v_i (leven_init S_leven) + 1"
    by blast
  from b body_S_leven have e: "vs' = vs_first" by simp
  have n: "v_res vs_first \<noteq> np_norm la1 (F S_leven (v_x vs_first))"
    by (simp add: vs_first_def la1_def S_leven_def Solver_init_def)
  from body_S_leven c e n show ?thesis by simp
qed

subsection \<open>The outer loop\<close>

lemma leven_returns_iff_guard:
  "leven la self = Some (Inr (self', out)) \<longleftrightarrow>
     (\<exists>n vs. outer_iters la self n vs
            \<and> \<not> (v_res vs > tol self \<and> v_i vs < maxx self \<and> \<bar>v_res vs - v_res_alt vs\<bar> > reltol self)
            \<and> self' = self\<lparr>sol := Some (v_x vs)\<rparr> \<and> out = v_out vs)"
  unfolding leven_returns_iff outer_cond_def by (rule refl)

text \<open>
  Claim C6: \<open>leven\<close> returns exactly when, starting from \<open>res = 1\<close>, \<open>res_alt = 1e10\<close>,
  \<open>mu = 0.1\<close> and \<open>i = 0\<close>, some number \<open>n\<close> of outer iterations, each entered with
  \<open>res > tol\<close> and \<open>i < maxx\<close> and \<open>|res - res_alt| > reltol\<close>, leads to variables where one of
  the three fails; the iterate \<open>x\<close> reached there is stored as the solution, whichever of
  them failed. The counter \<open>i\<close> is the number of iterations, and it never exceeds \<open>maxx\<close>
  (nor 0, if \<open>maxx\<close> is negative). If
  one of the three fails for the initial values, \<open>leven\<close> returns at once with \<open>x0\<close>.
\<close>

theorem leven_outer_loop:
  "(leven la self = Some (Inr (self', out)) \<longleftrightarrow>
      (\<exists>n vs. outer_iters la self n vs
             \<and> (v_res vs \<le> tol self \<or> maxx self \<le> v_i vs \<or> \<bar>v_res vs - v_res_alt vs\<bar> \<le> reltol self)
             \<and> self' = self\<lparr>sol := Some (v_x vs)\<rparr> \<and> out = v_out vs))
   \<and> (\<forall>n vs'. outer_iters la self (Suc n) vs' \<longrightarrow>
        (\<exists>vs. outer_iters la self n vs
            \<and> v_res vs > tol self \<and> v_i vs < maxx self \<and> \<bar>v_res vs - v_res_alt vs\<bar> > reltol self
            \<and> outer_body la self (np_eye la (np_len la (x0 self))) vs = Some (Inr vs')))
   \<and> (\<forall>n vs. outer_iters la self n vs \<longrightarrow> v_i vs = int n \<and> int n \<le> max 0 (maxx self))
   \<and> (1 \<le> tol self \<or> maxx self \<le> 0 \<or> \<bar>1 - 10 ^ 10\<bar> \<le> reltol self
        \<longrightarrow> leven la self = Some (Inr (self\<lparr>sol := Some (x0 self)\<rparr>, [])))
   \<and> v_res (leven_init self) = 1 \<and> v_res_alt (leven_init self) = 10 ^ 10
   \<and> v_mu (leven_init self) = 0.1 \<and> v_i (leven_init self) = 0 \<and> v_x (leven_init self) = x0 self"
proof -
  have g: "\<forall>n vs'. outer_iters la self (Suc n) vs' \<longrightarrow>
        (\<exists>vs. outer_iters la self n vs
            \<and> v_res vs > tol self \<and> v_i vs < maxx self \<and> \<bar>v_res vs - v_res_alt vs\<bar> > reltol self
            \<and> outer_body la self (np_eye la (np_len la (x0 self))) vs = Some (Inr vs'))"
    by (auto elim: outer_iters.cases)
  have a: "leven la self = Some (Inr (self', out)) \<longleftrightarrow>
      (\<exists>n vs. outer_iters la self n vs
             \<and> (v_res vs \<le> tol self \<or> maxx self \<le> v_i vs \<or> \<bar>v_res vs - v_res_alt vs\<bar> \<le> reltol self)
             \<and> self' = self\<lparr>sol := Some (v_x vs)\<rparr> \<and> out = v_out vs)"
    unfolding leven_returns_iff_guard by (simp add: not_less)
  have b: "\<forall>n vs. outer_iters la self n vs \<longrightarrow> v_i vs = int n \<and> int n \<le> max 0 (maxx self)"
    using outer_iters_inv[of la self] by blast
  have c: "leven la self = Some (Inr (self\<lparr>sol := Some (x0 self)\<rparr>, []))"
    if "1 \<le> tol self \<or> maxx self \<le> 0 \<or> \<bar>1 - 10 ^ 10\<bar> \<le> reltol self"
  proof -
    have "outer_iters la self 0 (leven_init self)" by (rule outer_iters.start)
    moreover have "\<not> (v_res (leven_init self) > tol self \<and> v_i (leven_init self) < maxx self
        \<and> \<bar>v_res (leven_init self) - v_res_alt (leven_init self)\<bar> > reltol self)"
      using that by (auto simp: leven_init_def)
    moreover have "v_x (leven_init self) = x0 self" "v_out (leven_init self) = []"
      by (simp_all add: leven_init_def)
    ultimately show ?thesis unfolding leven_returns_iff_guard by metis
  qed
  from a g b c show ?thesis by (simp add: leven_init_def)
qed

theorem leven_outer_loop_witness:
  "leven la1 S_leven = Some (Inr (S_leven\<lparr>sol := Some (1 / 101)\<rparr>, v_out vs_first))
   \<and> (\<exists>n vs. outer_iters la1 S_leven n vs \<and> int n \<le> max 0 (maxx S_leven) \<and> v_i vs = int n
        \<and> S_leven\<lparr>sol := Some (1 / 101)\<rparr> = S_leven\<lparr>sol := Some (v_x vs)\<rparr>)"
  using leven_outer_loop [of la1 S_leven "S_leven\<lparr>sol := Some (1 / 101)\<rparr>" "v_out vs_first"] leven_S_leven
  by blast

subsection \<open>Calling \<open>solve\<close> twice\<close>

text \<open>
  Claim C7: for every solver (every \<open>F\<close>, \<open>DF\<close>, \<open>x0\<close>, \<open>tol\<close>, \<open>maxx\<close> and algorithm),
  if a call of \<open>solve\<close> returns, a second call on the solver it leaves returns the same
  value, leaves the same solver and produces the same events: the solution stored by
  the first call does not change the second.
\<close>

theorem solve_idempotent:
  assumes "solve la self = Some (Inr (r, self', out))"
  shows "solve la self' = Some (Inr (r, self', out))"
proof (cases "algo self = ''newton'' \<or> algo self = ''gauss''")
  case True
  with assms show ?thesis by (auto simp: solve_def)
next
  case ng: False
  show ?thesis
  proof (cases "algo self = ''leven''")
    case False
    with ng assms show ?thesis by (auto simp: solve_def split: option.splits)
  next
    case True
    with ng assms obtain s1 o1 where l: "leven la self = Some (Inr (s1, o1))"
      by (auto simp: solve_def split: option.splits sum.splits)
    then have a: "algo s1 = algo self" and "sol s1 \<noteq> None"
      by (auto simp: leven_def Let_def split: option.splits sum.splits)
    with True ng assms l have s1: "s1 = self'"
      and out: "out = log_info (Text ''Run Levenberg-Marquardt method'') # o1"
      and r: "sol self' = Some r"
      by (auto simp: solve_def split: option.splits sum.splits)
    note l = l[unfolded s1] and a = a[unfolded s1]
    from leven_sol[OF l] a True out r show ?thesis by (simp add: solve_def)
  qed
qed

theorem solve_idempotent_witness:
  "solve la1 (S_leven\<lparr>sol := Some (1 / 101)\<rparr>) = Some (Inr (1 / 101, S_leven\<lparr>sol := Some (1 / 101)\<rparr>,
      log_info (Text ''Run Levenberg-Marquardt method'') # v_out vs_first))"
  using solve_idempotent [OF solve_S_leven] .

subsection \<open>The fallback of \<open>solve\<close>\<close>




end
